theory Spec2Isabelle
  imports Main "HOL-Library.Sublist" "HOL-Library.Char_ord" "HOL-Library.List_Lexorder"
begin

section \<open>Strings\<close>

text \<open>
  A Python string is a sequence of code points. It is modelled as a \<open>string\<close>, a list of
  \<open>char\<close>, where a \<open>char\<close> is a code point below 256: the model covers text of the Latin-1
  range, which includes ASCII text. \<open>str.split()\<close>, \<open>str.strip()\<close>, \<open>str.lower()\<close>,
  \<open>str.startswith\<close>, the operator \<open>in\<close> on strings, \<open>os.path.basename\<close> and
  \<open>os.path.join\<close> are library functions of Python; each is given here by the function it
  computes on such text.
\<close>

definition is_space :: "char \<Rightarrow> bool" where
  \<comment> \<open>the code points below 256 for which \<open>str.isspace\<close> holds: TAB, LF, VT, FF, CR, FS, GS,
      RS, US, SPACE, NEL (U+0085) and NO-BREAK SPACE (U+00A0)\<close>
  "is_space c = (of_char c \<in> {9, 10, 11, 12, 13, 28, 29, 30, 31, 32, 133, 160 :: nat})"

fun split_from :: "string \<Rightarrow> string \<Rightarrow> string list" where
  \<comment> \<open>\<open>split_from cur s\<close>: the fields of \<open>s\<close>, the field being read so far is \<open>cur\<close>\<close>
  "split_from cur [] = (if cur = [] then [] else [cur])"
| "split_from cur (c # cs) =
     (if is_space c then (if cur = [] then split_from [] cs else cur # split_from [] cs)
      else split_from (cur @ [c]) cs)"

definition split :: "string \<Rightarrow> string list" where
  \<comment> \<open>\<open>line.split()\<close>: the maximal runs of non-whitespace characters, in order\<close>
  "split s = split_from [] s"

definition startswith :: "string \<Rightarrow> string \<Rightarrow> bool" where
  \<comment> \<open>\<open>s.startswith(p)\<close>\<close>
  "startswith s p = prefix p s"

section \<open>Mount enumeration\<close>

text \<open>
  \<open>find_mounts_external\<close> reads \<open>/proc/mounts\<close>. What the function receives from the
  operating system is one of: a failure of \<open>open\<close> (the file is missing, permission is
  denied, ...), the lines of the file, or some lines followed by a failure of the iteration.
  Every exception is caught by \<open>except Exception: pass\<close>, after which the function
  returns \<open>sorted(set(mounts))\<close> of what was collected so far.
\<close>

datatype open_error = FileNotFound | PermissionDenied | OtherError

datatype proc_mounts =
    Open_failed open_error
  | Lines "string list"
  | Lines_then_failed "string list"

definition is_external_dev :: "string \<Rightarrow> bool" where
  "is_external_dev dev =
     (startswith dev ''/dev/sd'' \<or> startswith dev ''/dev/mmcblk'' \<or> startswith dev ''/dev/nvme'')"

fun collect_mounts :: "string list \<Rightarrow> string list \<Rightarrow> string list" where
  \<comment> \<open>the loop \<open>for line in f\<close>, with the list \<open>mounts\<close> as accumulator\<close>
  "collect_mounts mounts [] = mounts"
| "collect_mounts mounts (line # rest) =
     (let parts = split line in
      if length parts \<ge> 2 then
        (let dev = parts ! 0; mnt = parts ! 1 in
         if is_external_dev dev then collect_mounts (mounts @ [mnt]) rest
         else collect_mounts mounts rest)
      else collect_mounts mounts rest)"

definition sorted_set :: "string list \<Rightarrow> string list" where
  \<comment> \<open>\<open>sorted(set(mounts))\<close>: the distinct elements in ascending order\<close>
  "sorted_set xs = sort (remdups xs)"

fun find_mounts_external :: "proc_mounts \<Rightarrow> string list" where
  "find_mounts_external (Open_failed e) = sorted_set []"
| "find_mounts_external (Lines ls) = sorted_set (collect_mounts [] ls)"
| "find_mounts_external (Lines_then_failed ls) = sorted_set (collect_mounts [] ls)"

section \<open>The search worker\<close>

definition is_upper :: "char \<Rightarrow> bool" where
  \<comment> \<open>the code points below 256 that \<open>str.lower\<close> changes: A to Z, and the capital letters
      U+00C0 to U+00D6 and U+00D8 to U+00DE\<close>
  "is_upper c =
     (let n = of_char c :: nat in
      (65 \<le> n \<and> n \<le> 90) \<or> (192 \<le> n \<and> n \<le> 214) \<or> (216 \<le> n \<and> n \<le> 222))"

definition lower_char :: "char \<Rightarrow> char" where
  \<comment> \<open>the small letter of a capital letter lies 32 code points above it\<close>
  "lower_char c = (if is_upper c then char_of (of_char c + (32::nat)) else c)"

definition lower :: "string \<Rightarrow> string" where
  \<comment> \<open>\<open>s.lower()\<close>\<close>
  "lower s = map lower_char s"

definition str_in :: "string \<Rightarrow> string \<Rightarrow> bool" where
  \<comment> \<open>\<open>k in s\<close> on strings: \<open>k\<close> occurs in \<open>s\<close> as a contiguous substring\<close>
  "str_in k s = sublist k s"

definition basename :: "string \<Rightarrow> string" where
  \<comment> \<open>\<open>os.path.basename\<close>: what follows the last slash\<close>
  "basename p = rev (takeWhile (\<lambda>c. c \<noteq> CHR ''/'') (rev p))"

definition join :: "string \<Rightarrow> string \<Rightarrow> string" where
  \<comment> \<open>\<open>os.path.join\<close> with two arguments\<close>
  "join a b =
     (if startswith b ''/'' then b
      else if a = [] \<or> last a = CHR ''/'' then a @ b
      else a @ ''/'' @ b)"

text \<open>
  \<open>os.walk(root, onerror=...)\<close> yields a finite sequence of triples
  \<open>(dirpath, dirnames, filenames)\<close>, one for each directory it visits. The file system
  and the library function are the environment of the worker: they are the parameter
  \<open>walk\<close>, which gives the sequence for each root. The file system is taken not to change
  while the worker runs.
\<close>

type_synonym walk_entry = "string \<times> string list \<times> string list"
type_synonym os_walk = "string \<Rightarrow> walk_entry list"

text \<open>
  The worker emits three signals. The run is observed through its log: the signals
  emitted, in order, and between them every read of the shared cancellation flag with
  the value it returned. The flag is written by another thread, so what a read returns is
  given by the environment: \<open>stop i\<close> is the value returned by the worker's read number
  \<open>i\<close> (counted from 0).
\<close>

datatype event = IsSet bool | Found string | Progress nat | Finished

record search_worker =
  roots :: "string list"
  keyword :: string

definition SearchWorker :: "string list \<Rightarrow> string \<Rightarrow> search_worker" where
  \<comment> \<open>\<open>__init__\<close>: the keyword is stored in lower case\<close>
  "SearchWorker rs k = \<lparr>roots = rs, keyword = lower k\<rparr>"

record run_state =
  total_n :: nat  \<comment> \<open>the local variable \<open>total\<close>\<close>
  reads :: nat  \<comment> \<open>how many times the flag has been read\<close>
  log :: "event list"

datatype flow = Returned run_state | Running run_state

definition is_set :: "(nat \<Rightarrow> bool) \<Rightarrow> run_state \<Rightarrow> bool \<times> run_state" where
  "is_set stop w =
     (stop (reads w), w\<lparr>reads := Suc (reads w), log := log w @ [IsSet (stop (reads w))]\<rparr>)"

definition emit :: "event \<Rightarrow> run_state \<Rightarrow> run_state" where
  "emit e w = w\<lparr>log := log w @ [e]\<rparr>"

definition match_file :: "string \<Rightarrow> string \<Rightarrow> string \<Rightarrow> run_state \<Rightarrow> run_state" where
  \<comment> \<open>\<open>if self.keyword in fname.lower(): self.found.emit(os.path.join(dirpath, fname))\<close>\<close>
  "match_file k dirpath fname w =
     (if str_in k (lower fname) then (let full = join dirpath fname in emit (Found full) w)
      else w)"

fun for_fname :: "(nat \<Rightarrow> bool) \<Rightarrow> string \<Rightarrow> string \<Rightarrow> string list \<Rightarrow> run_state \<Rightarrow> flow" where
  \<comment> \<open>the loop \<open>for fname in filenames\<close>\<close>
  "for_fname stop k dirpath [] w = Running w"
| "for_fname stop k dirpath (fname # rest) w =
     (let (b, w1) = is_set stop w in
      if b then Returned (emit Finished w1)
      else for_fname stop k dirpath rest (match_file k dirpath fname w1))"

definition match_dir :: "string \<Rightarrow> string \<Rightarrow> run_state \<Rightarrow> run_state" where
  \<comment> \<open>\<open>name = os.path.basename(dirpath).lower(); if self.keyword in name: ...\<close>\<close>
  "match_dir k dirpath w =
     (let name = lower (basename dirpath) in
      if str_in k name then emit (Found dirpath) w else w)"

definition count_dir :: "run_state \<Rightarrow> run_state" where
  \<comment> \<open>\<open>total += 1; if total % 500 == 0: self.progress.emit(total)\<close>\<close>
  "count_dir w =
     (let w1 = w\<lparr>total_n := total_n w + 1\<rparr> in
      if total_n w1 mod 500 = 0 then emit (Progress (total_n w1)) w1 else w1)"

definition visit_dir :: "(nat \<Rightarrow> bool) \<Rightarrow> string \<Rightarrow> walk_entry \<Rightarrow> run_state \<Rightarrow> flow" where
  \<comment> \<open>the body of the loop over \<open>os.walk(root)\<close>\<close>
  "visit_dir stop k entry w =
     (case entry of (dirpath, dirnames, filenames) \<Rightarrow>
        let (b, w1) = is_set stop w in
        if b then Returned (emit Finished w1)
        else
          (case for_fname stop k dirpath filenames (match_dir k dirpath w1) of
             Returned w2 \<Rightarrow> Returned w2
           | Running w2 \<Rightarrow> Running (count_dir w2)))"

fun for_entry :: "(nat \<Rightarrow> bool) \<Rightarrow> string \<Rightarrow> walk_entry list \<Rightarrow> run_state \<Rightarrow> flow" where
  \<comment> \<open>the loop over the triples of one root\<close>
  "for_entry stop k [] w = Running w"
| "for_entry stop k (entry # rest) w =
     (case visit_dir stop k entry w of
        Returned w1 \<Rightarrow> Returned w1
      | Running w1 \<Rightarrow> for_entry stop k rest w1)"

fun for_root :: "os_walk \<Rightarrow> (nat \<Rightarrow> bool) \<Rightarrow> string \<Rightarrow> string list \<Rightarrow> run_state \<Rightarrow> flow" where
  \<comment> \<open>the loop \<open>for root in self.roots\<close>\<close>
  "for_root walk stop k [] w = Running w"
| "for_root walk stop k (root # rest) w =
     (case for_entry stop k (walk root) w of
        Returned w1 \<Rightarrow> Returned w1
      | Running w1 \<Rightarrow> for_root walk stop k rest w1)"

definition run :: "os_walk \<Rightarrow> (nat \<Rightarrow> bool) \<Rightarrow> search_worker \<Rightarrow> run_state" where
  "run walk stop self =
     (case for_root walk stop (keyword self) (roots self) \<lparr>total_n = 0, reads = 0, log = []\<rparr> of
        Returned w \<Rightarrow> w
      | Running w \<Rightarrow> emit Finished w)"

definition never_set :: "nat \<Rightarrow> bool" where
  \<comment> \<open>the flag of a run that is not cancelled: every read returns False\<close>
  "never_set i = False"

subsection \<open>Reading the log\<close>

fun found_of :: "event \<Rightarrow> string list" where
  "found_of (Found p) = [p]"
| "found_of e = []"

definition found_paths :: "event list \<Rightarrow> string list" where
  \<comment> \<open>the paths carried by the \<open>found\<close> signals, in order\<close>
  "found_paths es = concat (map found_of es)"

fun progress_of :: "event \<Rightarrow> nat list" where
  "progress_of (Progress n) = [n]"
| "progress_of e = []"

definition progress_values :: "event list \<Rightarrow> nat list" where
  \<comment> \<open>the values carried by the \<open>progress\<close> signals, in order\<close>
  "progress_values es = concat (map progress_of es)"

fun is_read :: "event \<Rightarrow> bool" where
  "is_read (IsSet b) = True"
| "is_read e = False"

definition signals :: "event list \<Rightarrow> event list" where
  \<comment> \<open>the signals of a log, without the reads of the flag\<close>
  "signals es = filter (\<lambda>e. \<not> is_read e) es"

fun read_value :: "event \<Rightarrow> bool list" where
  "read_value (IsSet b) = [b]"
| "read_value e = []"

definition read_values :: "event list \<Rightarrow> bool list" where
  \<comment> \<open>what the reads of the flag returned, in order\<close>
  "read_values es = concat (map read_value es)"

fun before_read :: "nat \<Rightarrow> event list \<Rightarrow> event list" where
  \<comment> \<open>the part of a log that lies before its read number \<open>n\<close> (counted from 0)\<close>
  "before_read n [] = []"
| "before_read n (e # es) =
     (if is_read e then (case n of 0 \<Rightarrow> [] | Suc m \<Rightarrow> e # before_read m es)
      else e # before_read n es)"

fun is_progress :: "event \<Rightarrow> bool" where
  "is_progress (Progress n) = True"
| "is_progress e = False"

definition without_progress :: "event list \<Rightarrow> event list" where
  "without_progress es = filter (\<lambda>e. \<not> is_progress e) es"

text \<open>
  Where the checkpoints are, as the specification words them: in a run that is not
  cancelled, each visited directory begins with a read of the flag, which comes before the
  match of the directory, and each of its files begins with a read of the flag, which
  comes before the match of the file. \<open>k\<close> is the keyword as the worker stores it.
\<close>

definition file_events :: "string \<Rightarrow> string \<Rightarrow> string \<Rightarrow> event list" where
  "file_events k dirpath fname =
     IsSet False # (if str_in k (lower fname) then [Found (join dirpath fname)] else [])"

definition visit_events :: "string \<Rightarrow> walk_entry \<Rightarrow> event list" where
  "visit_events k entry =
     (case entry of (dirpath, dirnames, filenames) \<Rightarrow>
        IsSet False # (if str_in k (lower (basename dirpath)) then [Found dirpath] else [])
        @ concat (map (file_events k dirpath) filenames))"

definition checkpoints :: "walk_entry \<Rightarrow> nat" where
  \<comment> \<open>one checkpoint for the directory and one for each of its files\<close>
  "checkpoints entry = (case entry of (dirpath, dirnames, filenames) \<Rightarrow> 1 + length filenames)"

definition all_entries :: "os_walk \<Rightarrow> string list \<Rightarrow> walk_entry list" where
  \<comment> \<open>every triple of every root, a root listed twice being walked twice\<close>
  "all_entries walk rs = concat (map walk rs)"

text \<open>
  What the specification speaks of, stated without \<open>lower\<close>: two characters are the same
  letter when they are equal or one is the capital form of the other; a name contains the
  keyword case-insensitively when, at some position of the name, the characters of the
  keyword follow one after the other, each up to the case of the letter. Nothing in the
  keyword has a special meaning.
\<close>

definition same_letter :: "char \<Rightarrow> char \<Rightarrow> bool" where
  "same_letter a b =
     (a = b \<or> (is_upper a \<and> of_char b = of_char a + (32::nat))
            \<or> (is_upper b \<and> of_char a = of_char b + (32::nat)))"

fun ci_prefix :: "string \<Rightarrow> string \<Rightarrow> bool" where
  \<comment> \<open>\<open>ci_prefix k s\<close>: \<open>s\<close> begins with \<open>k\<close>, up to the case of the letters\<close>
  "ci_prefix [] s = True"
| "ci_prefix (a # k) [] = False"
| "ci_prefix (a # k) (b # s) = (same_letter a b \<and> ci_prefix k s)"

fun contains_ci :: "string \<Rightarrow> string \<Rightarrow> bool" where
  \<comment> \<open>\<open>contains_ci name k\<close>: \<open>name\<close> contains the keyword \<open>k\<close> case-insensitively\<close>
  "contains_ci [] k = (k = [])"
| "contains_ci (c # s) k = (ci_prefix k (c # s) \<or> contains_ci s k)"

definition ascii :: "string \<Rightarrow> bool" where
  "ascii s = (\<forall>c \<in> set s. of_char c < (128::nat))"

definition ascii_walk :: "os_walk \<Rightarrow> string list \<Rightarrow> bool" where
  \<comment> \<open>every path and every file name that the walks of the roots yield is ASCII text\<close>
  "ascii_walk walk rs =
     (\<forall>entry \<in> set (all_entries walk rs).
        case entry of (dirpath, dirnames, filenames) \<Rightarrow>
          ascii dirpath \<and> (\<forall>f \<in> set filenames. ascii f))"

definition matching_paths :: "string \<Rightarrow> walk_entry \<Rightarrow> string list" where
  \<comment> \<open>the matches of one visited directory, as the specification words them: the path of
      the directory if its base name contains the keyword, then the path of each of its
      files whose name contains the keyword\<close>
  "matching_paths k entry =
     (case entry of (dirpath, dirnames, filenames) \<Rightarrow>
        (if contains_ci (basename dirpath) k then [dirpath] else [])
        @ map (join dirpath) (filter (\<lambda>f. contains_ci f k) filenames))"

subsection \<open>File systems and the walk\<close>

text \<open>
  The properties that speak of the entries of a directory tree need the tree. A node is a
  file (anything that \<open>os.walk\<close> lists among the \<open>filenames\<close>), a directory that the walk
  enters, or a directory that the walk lists among the \<open>dirnames\<close> of its parent but does
  not enter: one that cannot be read (the error goes to \<open>onerror\<close>, which ignores it) or a
  symbolic link to a directory (\<open>followlinks\<close> is off). The children of a directory are in
  the order in which the operating system lists them.

  \<open>os_walk\<close> is \<open>os.walk\<close> of the Python library in its default top-down order: it yields
  the triple of the directory, then walks the listed directories in order.
\<close>

datatype node = File string | Dir string "node list" | Skipped string

fun node_name :: "node \<Rightarrow> string" where
  "node_name (File n) = n"
| "node_name (Dir n cs) = n"
| "node_name (Skipped n) = n"

fun is_dir :: "node \<Rightarrow> bool" where
  \<comment> \<open>\<open>entry.is_dir()\<close>: listed among the \<open>dirnames\<close>\<close>
  "is_dir (File n) = False"
| "is_dir (Dir n cs) = True"
| "is_dir (Skipped n) = True"

fun os_walk :: "string \<Rightarrow> node \<Rightarrow> walk_entry list" where
  "os_walk tp (Dir n cs) =
     (tp, map node_name (filter is_dir cs), map node_name (filter (\<lambda>c. \<not> is_dir c) cs))
     # concat (map (\<lambda>c. os_walk (join tp (node_name c)) c) (filter is_dir cs))"
| "os_walk tp (File n) = []"
| "os_walk tp (Skipped n) = []"

type_synonym file_system = "string \<Rightarrow> node option"

definition walk_fs :: "file_system \<Rightarrow> os_walk" where
  \<comment> \<open>a file system gives the tree that a root path denotes, if it denotes one\<close>
  "walk_fs fs root = (case fs root of None \<Rightarrow> [] | Some t \<Rightarrow> os_walk root t)"

fun well_formed :: "node \<Rightarrow> bool" where
  \<comment> \<open>the names in a directory are distinct, not empty and without a slash\<close>
  "well_formed (Dir n cs) =
     (distinct (map node_name cs) \<and>
      (\<forall>c \<in> set cs. node_name c \<noteq> [] \<and> CHR ''/'' \<notin> set (node_name c) \<and> well_formed c))"
| "well_formed (File n) = True"
| "well_formed (Skipped n) = True"

text \<open>
  The entries of a tree as the specification speaks of them: every node with its path.
  An entry matches when it is a file or an entered directory and the last component of its
  path contains the keyword case-insensitively.
\<close>

fun listing :: "string \<Rightarrow> node \<Rightarrow> (string \<times> node) list" where
  "listing p (Dir n cs) =
     (p, Dir n cs) # concat (map (\<lambda>c. listing (join p (node_name c)) c) cs)"
| "listing p (File n) = [(p, File n)]"
| "listing p (Skipped n) = [(p, Skipped n)]"

fun reported :: "node \<Rightarrow> bool" where
  "reported (File n) = True"
| "reported (Dir n cs) = True"
| "reported (Skipped n) = False"

definition is_match :: "string \<Rightarrow> string \<times> node \<Rightarrow> bool" where
  "is_match k e = (case e of (p, nd) \<Rightarrow> reported nd \<and> contains_ci (basename p) k)"

definition tree_matches :: "string \<Rightarrow> string \<Rightarrow> node \<Rightarrow> string list" where
  "tree_matches k root t = map fst (filter (is_match k) (listing root t))"

definition fs_matches :: "file_system \<Rightarrow> string \<Rightarrow> string \<Rightarrow> string list" where
  "fs_matches fs k root = (case fs root of None \<Rightarrow> [] | Some t \<Rightarrow> tree_matches k root t)"

text \<open>
  Two roots are apart when neither is the other and neither lies below the other: with a
  final slash added where there is none, neither path is an initial piece of the other.
\<close>

definition sl :: "string \<Rightarrow> string" where
  "sl p = (if p \<noteq> [] \<and> last p = CHR ''/'' then p else p @ ''/'')"

definition apart :: "string \<Rightarrow> string \<Rightarrow> bool" where
  "apart r q = (\<not> prefix (sl r) (sl q) \<and> \<not> prefix (sl q) (sl r))"

fun roots_apart :: "string list \<Rightarrow> bool" where
  "roots_apart [] = True"
| "roots_apart (r # rs) = ((\<forall>q \<in> set rs. apart r q) \<and> roots_apart rs)"

definition root_ok :: "file_system \<Rightarrow> string \<Rightarrow> bool" where
  \<comment> \<open>a root is a path that is not empty and denotes nothing or a well-formed directory\<close>
  "root_ok fs r =
     (r \<noteq> [] \<and> (case fs r of None \<Rightarrow> True | Some t \<Rightarrow> is_dir t \<and> well_formed t))"

subsection \<open>Three file systems\<close>

definition usb_fs :: file_system where
  \<comment> \<open>the only file is \<open>/media/usb1/foo.txt\<close>; \<open>/media/usb1\<close> is a mount point\<close>
  "usb_fs root =
     (if root = ''/'' then Some (Dir '''' [Dir ''media'' [Dir ''usb1'' [File ''foo.txt'']]])
      else if root = ''/media/usb1'' then Some (Dir ''usb1'' [File ''foo.txt''])
      else None)"

definition test_fs :: file_system where
  \<comment> \<open>\<open>/tmp/testroot\<close> with \<open>Foo/bar.txt\<close> and \<open>baz/FooBar.log\<close>\<close>
  "test_fs root =
     (if root = ''/tmp/testroot''
      then Some (Dir ''testroot'' [Dir ''Foo'' [File ''bar.txt''], Dir ''baz'' [File ''FooBar.log'']])
      else None)"

definition locked_fs :: file_system where
  \<comment> \<open>\<open>/srv\<close> holds one directory, \<open>foo_private\<close>, that cannot be read\<close>
  "locked_fs root = (if root = ''/srv'' then Some (Dir ''srv'' [Skipped ''foo_private'']) else None)"

subsection \<open>Notions used in the proofs about the worker\<close>

text \<open>
  The loops of \<open>run\<close> are compositions of three kinds of steps: a read of the flag that
  returns from \<open>run\<close> when the flag is set (\<open>check\<close>), a step that cannot return, and
  the sequencing of two steps (\<open>andthen\<close>). The lemmas below first rewrite each loop in
  this form.
\<close>

fun state_of :: "flow \<Rightarrow> run_state" where
  "state_of (Returned w) = w"
| "state_of (Running w) = w"

definition check :: "(nat \<Rightarrow> bool) \<Rightarrow> run_state \<Rightarrow> flow" where
  "check stop w = (let (b, w1) = is_set stop w in if b then Returned (emit Finished w1) else Running w1)"

definition andthen :: "flow \<Rightarrow> (run_state \<Rightarrow> flow) \<Rightarrow> flow" where
  "andthen r f = (case r of Returned w \<Rightarrow> Returned w | Running w \<Rightarrow> f w)"

text \<open>
  A piece of log is \<open>clean\<close> when the worker has neither seen the flag set nor emitted
  the completion signal in it. \<open>extends w w'\<close>: the log of \<open>w'\<close> is that of \<open>w\<close> followed by
  a clean piece. \<open>cancelled_in w w' w0\<close>: from \<open>w\<close>, the run reached \<open>w'\<close> by a clean piece,
  then saw the flag set and emitted the completion signal, where the run that is not
  cancelled saw the flag not set, went on and reached \<open>w0\<close>. \<open>sim w r r0\<close> relates the outcome \<open>r\<close> of a step under some flag
  to its outcome \<open>r0\<close> when the flag is never set.
\<close>

definition clean :: "event list \<Rightarrow> bool" where
  "clean es = (Finished \<notin> set es \<and> IsSet True \<notin> set es)"

definition extends :: "run_state \<Rightarrow> run_state \<Rightarrow> bool" where
  "extends w w' = (\<exists>es. log w' = log w @ es \<and> clean es)"

definition cancelled_in :: "run_state \<Rightarrow> run_state \<Rightarrow> run_state \<Rightarrow> bool" where
  "cancelled_in w w' w0 =
     (\<exists>es. log w' = log w @ es @ [IsSet True, Finished] \<and> clean es
        \<and> prefix (log w @ es @ [IsSet False]) (log w0))"

definition sim :: "run_state \<Rightarrow> flow \<Rightarrow> flow \<Rightarrow> bool" where
  "sim w r r0 =
     (\<exists>w0. r0 = Running w0 \<and> extends w w0 \<and>
        (case r of Running w' \<Rightarrow> w' = w0 | Returned w' \<Rightarrow> cancelled_in w w' w0))"

text \<open>
  \<open>dir_matches k entry\<close> lists what the body of the loop emits for one triple when the
  stored (lower-case) keyword is \<open>k\<close>. \<open>effect w w' ps t r\<close> sums up an uncancelled piece of
  run: the paths found, the directories counted, the reads made. \<open>shape w w' es\<close>: apart
  from progress signals, the piece logged \<open>es\<close>. \<open>follows stop w\<close>: the reads logged so far
  returned what the flag \<open>stop\<close> gives, in order.
\<close>

definition dir_matches :: "string \<Rightarrow> walk_entry \<Rightarrow> string list" where
  "dir_matches k entry =
     (case entry of (dirpath, dirnames, filenames) \<Rightarrow>
        (if str_in k (lower (basename dirpath)) then [dirpath] else [])
        @ map (join dirpath) (filter (\<lambda>f. str_in k (lower f)) filenames))"

definition effect :: "run_state \<Rightarrow> run_state \<Rightarrow> string list \<Rightarrow> nat \<Rightarrow> nat \<Rightarrow> bool" where
  "effect w w' ps t r =
     (found_paths (log w') = found_paths (log w) @ ps \<and> total_n w' = total_n w + t
      \<and> reads w' = reads w + r)"

definition shape :: "run_state \<Rightarrow> run_state \<Rightarrow> event list \<Rightarrow> bool" where
  "shape w w' es = (without_progress (log w') = without_progress (log w) @ es)"

definition follows :: "(nat \<Rightarrow> bool) \<Rightarrow> run_state \<Rightarrow> bool" where
  "follows stop w = (read_values (log w) = map stop [0..<reads w])"

text \<open>
  \<open>progress_ok w\<close>: the progress signals emitted so far carry 500, 1000, ... up to the
  largest multiple of 500 that the counter has reached.
\<close>

definition progress_ok :: "run_state \<Rightarrow> bool" where
  "progress_ok w = (progress_values (log w) = map (\<lambda>i. 500 * i) [1..<Suc (total_n w div 500)])"

definition tracks :: "nat \<Rightarrow> run_state \<Rightarrow> run_state \<Rightarrow> bool" where
  "tracks n w w' =
     ((progress_ok w \<longrightarrow> progress_ok w') \<and> total_n w \<le> total_n w' \<and> total_n w' \<le> total_n w + n)"

definition set_from :: "nat \<Rightarrow> nat \<Rightarrow> bool" where
  \<comment> \<open>the flag of a run that is cancelled between its reads number \<open>n - 1\<close> and \<open>n\<close>\<close>
  "set_from n i = (n \<le> i)"

text \<open>
  \<open>emitted k tp t\<close> lists what the uncancelled loop emits on the walk of the tree \<open>t\<close> at
  the path \<open>tp\<close>, and \<open>root_found fs k r\<close> what it emits for the root \<open>r\<close>. \<open>under q p\<close>: the
  path \<open>p\<close> is \<open>q\<close> or continues \<open>q\<close> after a slash. \<open>comp1 b p\<close> is the first component of
  \<open>p\<close> after the initial piece \<open>b\<close>. A name is \<open>plain\<close> when it is not empty and has no
  slash.
\<close>

definition emitted :: "string \<Rightarrow> string \<Rightarrow> node \<Rightarrow> string list" where
  "emitted k tp t = concat (map (dir_matches k) (os_walk tp t))"

definition root_found :: "file_system \<Rightarrow> string \<Rightarrow> string \<Rightarrow> string list" where
  "root_found fs k r = concat (map (dir_matches k) (walk_fs fs r))"

definition under :: "string \<Rightarrow> string \<Rightarrow> bool" where
  "under q p = (\<exists>s. p = q @ s \<and> (s = [] \<or> hd s = CHR ''/''))"

definition comp1 :: "string \<Rightarrow> string \<Rightarrow> string" where
  "comp1 b p = takeWhile (\<lambda>c. c \<noteq> CHR ''/'') (drop (length b) p)"

definition plain :: "string \<Rightarrow> bool" where
  "plain n = (n \<noteq> [] \<and> CHR ''/'' \<notin> set n)"

section \<open>The main window\<close>

text \<open>
  The window is a record of the widget state that the methods read and write, the shared
  cancellation flag, and the worker objects. A \<open>SearchWorker\<close> object is identified by the
  order of its creation: \<open>workers\<close> lists every worker created so far, \<open>worker\<close> is the
  attribute \<open>self.worker\<close> (the number of the worker created last), and \<open>running\<close> lists the
  workers whose thread has been started and has not finished. The label of the roots is
  computed from \<open>custom_roots\<close> alone and is left out. The texts of the status line are the
  constructors of \<open>status\<close>.
\<close>

datatype status =
    Pret  \<comment> \<open>the initial text\<close>
  | Entrer_un_mot_cle
  | Recherche_en_cours
  | Arret_en_cours
  | Parcouru nat  \<comment> \<open>the number of directories of \<open>on_progress\<close>\<close>
  | Fini nat  \<comment> \<open>the number of results of \<open>on_finished\<close>\<close>

record main_window =
  search_input :: string
  search_button_enabled :: bool
  stop_button_enabled :: bool
  include_external_cb :: bool
  custom_roots :: "string list"
  loader_visible :: bool
  result_list :: "string list"
  status_label :: status
  stop_event :: bool
  worker :: "nat option"
  workers :: "search_worker list"
  running :: "nat list"

definition MainWindow :: main_window where
  \<comment> \<open>\<open>__init__\<close> and \<open>_build_ui\<close>\<close>
  "MainWindow =
     \<lparr>search_input = [], search_button_enabled = True, stop_button_enabled = False,
      include_external_cb = False, custom_roots = [], loader_visible = False,
      result_list = [], status_label = Pret, stop_event = False,
      worker = None, workers = [], running = []\<rparr>"

definition strip :: "string \<Rightarrow> string" where
  \<comment> \<open>\<open>s.strip()\<close>: without the whitespace at both ends\<close>
  "strip s = rev (dropWhile is_space (rev (dropWhile is_space s)))"

definition add_custom_folder :: "string \<Rightarrow> main_window \<Rightarrow> main_window" where
  \<comment> \<open>\<open>d\<close> is the answer of the directory dialog, empty when the dialog was dismissed\<close>
  "add_custom_folder d self =
     (if d \<noteq> [] then self\<lparr>custom_roots := custom_roots self @ [d]\<rparr> else self)"

definition clear_custom_roots :: "main_window \<Rightarrow> main_window" where
  "clear_custom_roots self = self\<lparr>custom_roots := []\<rparr>"

fun add_mounts :: "string list \<Rightarrow> string list \<Rightarrow> string list" where
  \<comment> \<open>\<open>for m in mounts: if m not in roots: roots.append(m)\<close>\<close>
  "add_mounts rs [] = rs"
| "add_mounts rs (m # ms) = add_mounts (if m \<notin> set rs then rs @ [m] else rs) ms"

definition search_roots :: "proc_mounts \<Rightarrow> main_window \<Rightarrow> string list" where
  \<comment> \<open>the list \<open>roots\<close> that \<open>start_search\<close> builds\<close>
  "search_roots pm self =
     (let rs = (if custom_roots self \<noteq> [] then custom_roots self else [''/''])
      in if include_external_cb self then add_mounts rs (find_mounts_external pm) else rs)"

definition start_search :: "proc_mounts \<Rightarrow> main_window \<Rightarrow> main_window" where
  "start_search pm self =
     (let k = strip (search_input self) in
      if k = [] then self\<lparr>status_label := Entrer_un_mot_cle\<rparr>
      else
        let rs = search_roots pm self;
            n = length (workers self)
        in self\<lparr>result_list := [], stop_event := False,
                workers := workers self @ [SearchWorker rs k], worker := Some n,
                loader_visible := True, search_button_enabled := False,
                stop_button_enabled := True, status_label := Recherche_en_cours,
                running := running self @ [n]\<rparr>)"

definition stop_search :: "main_window \<Rightarrow> main_window" where
  \<comment> \<open>\<open>if self.worker and self.worker.isRunning(): ...\<close>\<close>
  "stop_search self =
     (case worker self of
        None \<Rightarrow> self
      | Some n \<Rightarrow>
          if n \<in> set (running self)
          then self\<lparr>stop_event := True, status_label := Arret_en_cours\<rparr>
          else self)"

definition on_found :: "string \<Rightarrow> main_window \<Rightarrow> main_window" where
  "on_found path self = self\<lparr>result_list := result_list self @ [path]\<rparr>"

definition on_progress :: "nat \<Rightarrow> main_window \<Rightarrow> main_window" where
  "on_progress n self = self\<lparr>status_label := Parcouru n\<rparr>"

definition on_finished :: "main_window \<Rightarrow> main_window" where
  "on_finished self =
     self\<lparr>loader_visible := False, search_button_enabled := True,
          stop_button_enabled := False, status_label := Fini (length (result_list self))\<rparr>"

text \<open>
  What can happen to the window. \<open>_build_ui\<close> connects \<open>returnPressed\<close> of the keyword
  field and \<open>clicked\<close> of the search button to \<open>start_search\<close>, and \<open>clicked\<close> of the stop
  button to \<open>stop_search\<close>; a disabled button does not emit \<open>clicked\<close>. The signals of every
  worker are connected to \<open>on_found\<close>, \<open>on_progress\<close> and \<open>on_finished\<close>; the thread of a
  worker ends when \<open>run\<close> returns, which is right after it emitted \<open>finished\<close>.
\<close>

datatype action =
    Edit_keyword string
  | Toggle_external bool
  | Add_folder string
  | Clear_roots
  | Click_search
  | Press_return
  | Click_stop
  | Worker_found nat string
  | Worker_progress nat nat
  | Worker_finished nat

fun step :: "proc_mounts \<Rightarrow> action \<Rightarrow> main_window \<Rightarrow> main_window" where
  "step pm (Edit_keyword s) self = self\<lparr>search_input := s\<rparr>"
| "step pm (Toggle_external b) self = self\<lparr>include_external_cb := b\<rparr>"
| "step pm (Add_folder d) self = add_custom_folder d self"
| "step pm Clear_roots self = clear_custom_roots self"
| "step pm Click_search self =
     (if search_button_enabled self then start_search pm self else self)"
| "step pm Press_return self = start_search pm self"
| "step pm Click_stop self = (if stop_button_enabled self then stop_search self else self)"
| "step pm (Worker_found n path) self =
     (if n \<in> set (running self) then on_found path self else self)"
| "step pm (Worker_progress n t) self =
     (if n \<in> set (running self) then on_progress t self else self)"
| "step pm (Worker_finished n) self =
     (if n \<in> set (running self) then (on_finished self)\<lparr>running := removeAll n (running self)\<rparr>
      else self)"

fun steps :: "proc_mounts \<Rightarrow> action list \<Rightarrow> main_window \<Rightarrow> main_window" where
  "steps pm [] self = self"
| "steps pm (a # as) self = steps pm as (step pm a self)"

fun slot :: "event \<Rightarrow> main_window \<Rightarrow> main_window" where
  \<comment> \<open>the slot that receives a signal of the worker; a read of the flag is not a signal\<close>
  "slot (Found path) self = on_found path self"
| "slot (Progress n) self = on_progress n self"
| "slot Finished self = on_finished self"
| "slot (IsSet b) self = self"

definition deliver :: "event list \<Rightarrow> main_window \<Rightarrow> main_window" where
  \<comment> \<open>the signals of a log reach the window in the order of their emission\<close>
  "deliver es self = fold slot es self"

section \<open>The terminal launcher\<close>

text \<open>
  \<open>shutil_which\<close> and \<open>subprocess.Popen\<close> are the environment: \<open>which c\<close> tells whether the
  program \<open>c\<close> is found on the search path, \<open>popen argv\<close> whether the process could be
  spawned. The result is what the user gets: a process spawned with an argument vector, or
  one of the two warning boxes.
\<close>

definition candidates :: "string list" where
  "candidates =
     [''konsole'', ''x-terminal-emulator'', ''xfce4-terminal'', ''gnome-terminal'', ''urxvt'', ''xterm'']"

fun first_found :: "(string \<Rightarrow> bool) \<Rightarrow> string list \<Rightarrow> string option" where
  \<comment> \<open>the loop \<open>for c in candidates\<close>, with \<open>cmd\<close> as result\<close>
  "first_found which [] = None"
| "first_found which (c # cs) = (if which c then Some c else first_found which cs)"

datatype launch = Aucun_terminal | Spawned "string list" | Erreur

definition terminal_argv :: "string \<Rightarrow> string \<Rightarrow> string list" where
  \<comment> \<open>the argument vector given to \<open>Popen\<close>; in the last branch the escapes \<open>\\"\<close> of the
      Python literal are plain double quotes in the string\<close>
  "terminal_argv cmd folder =
     (if cmd = ''konsole'' then [cmd, ''--workdir'', folder]
      else if cmd = ''x-terminal-emulator'' \<or> cmd = ''gnome-terminal''
        then [cmd, ''--'', ''bash'', ''-c'', ''cd \"'' @ folder @ ''\"; exec bash'']
      else [cmd, ''-e'', ''bash -lc \"cd \"'' @ folder @ ''\"; exec bash\"''])"

definition open_terminal_at ::
    "(string \<Rightarrow> bool) \<Rightarrow> (string list \<Rightarrow> bool) \<Rightarrow> string \<Rightarrow> launch" where
  "open_terminal_at which popen folder =
     (case first_found which candidates of
        None \<Rightarrow> Aucun_terminal
      | Some cmd \<Rightarrow>
          (let argv = terminal_argv cmd folder in
           if popen argv then Spawned argv else Erreur))"

definition only_installed :: "string \<Rightarrow> string \<Rightarrow> bool" where
  \<comment> \<open>a system on which a single terminal program is installed\<close>
  "only_installed t c = (c = t)"

definition popen_succeeds :: "string list \<Rightarrow> bool" where
  "popen_succeeds argv = True"

section \<open>Properties of the string functions\<close>

lemma of_char_char_of_small: "n < 256 \<Longrightarrow> of_char (char_of n) = (n::nat)"
  by simp

lemma upper_bound: "is_upper c \<Longrightarrow> of_char c + (32::nat) < 256"
  by (auto simp: is_upper_def Let_def)

lemma of_char_lower_upper: "is_upper c \<Longrightarrow> of_char (lower_char c) = of_char c + (32::nat)"
  using upper_bound [of c] by (simp add: lower_char_def)

lemma lower_same: "\<not> is_upper c \<Longrightarrow> lower_char c = c"
  by (simp add: lower_char_def)

lemma lower_not_upper: "\<not> is_upper (lower_char c)"
proof (cases "is_upper c")
  case True
  have "of_char (lower_char c) = of_char c + (32::nat)" using True by (rule of_char_lower_upper)
  then show ?thesis using True by (auto simp: is_upper_def Let_def)
next
  case False
  then show ?thesis by (simp add: lower_char_def)
qed

lemma of_char_eq_iff: "(of_char a = (of_char b :: nat)) = (a = b)"
  by (metis char_of_char)



lemma upper_shift: "is_upper a \<Longrightarrow> is_upper b \<Longrightarrow> of_char b \<noteq> of_char a + (32::nat)"
  unfolding is_upper_def Let_def by arith


lemma upper_neq: "is_upper a \<Longrightarrow> \<not> is_upper b \<Longrightarrow> a \<noteq> b"
  by blast

lemma same_letter_lower: "same_letter a b \<longleftrightarrow> lower_char a = lower_char b"
proof -
  have e: "lower_char a = lower_char b \<longleftrightarrow> of_char (lower_char a) = (of_char (lower_char b) :: nat)"
    by (simp only: of_char_eq_iff)
  show ?thesis
  proof (cases "is_upper a")
    case a: True
    show ?thesis
    proof (cases "is_upper b")
      case b: True
      note e
      also have "of_char (lower_char a) = (of_char (lower_char b) :: nat)
                   \<longleftrightarrow> of_char a + 32 = (of_char b + 32 :: nat)"
        by (simp only: of_char_lower_upper [OF a] of_char_lower_upper [OF b])
      also have "\<dots> \<longleftrightarrow> a = b"
        by (simp only: add_right_cancel of_char_eq_iff)
      finally have "lower_char a = lower_char b \<longleftrightarrow> a = b" .
      moreover have "of_char b \<noteq> of_char a + (32::nat)" "of_char a \<noteq> of_char b + (32::nat)"
        using a b upper_shift by blast+
      ultimately show ?thesis unfolding same_letter_def by blast
    next
      case b: False
      note e
      also have "of_char (lower_char a) = (of_char (lower_char b) :: nat)
                   \<longleftrightarrow> of_char a + 32 = (of_char b :: nat)"
        by (simp only: of_char_lower_upper [OF a] lower_same [OF b])
      also have "\<dots> \<longleftrightarrow> of_char b = of_char a + (32::nat)"
        by (rule eq_commute)
      finally have "lower_char a = lower_char b \<longleftrightarrow> of_char b = of_char a + (32::nat)" .
      moreover have "a \<noteq> b" using a b by blast
      ultimately show ?thesis unfolding same_letter_def using a b by blast
    qed
  next
    case a: False
    show ?thesis
    proof (cases "is_upper b")
      case b: True
      note e
      also have "of_char (lower_char a) = (of_char (lower_char b) :: nat)
                   \<longleftrightarrow> of_char a = (of_char b + 32 :: nat)"
        by (simp only: of_char_lower_upper [OF b] lower_same [OF a])
      finally have "lower_char a = lower_char b \<longleftrightarrow> of_char a = of_char b + (32::nat)" .
      moreover have "a \<noteq> b" using a b by blast
      ultimately show ?thesis unfolding same_letter_def using a b by blast
    next
      case b: False
      show ?thesis
        unfolding same_letter_def lower_same [OF a] lower_same [OF b] using a b by blast
    qed
  qed
qed


lemma ci_prefix_lower: "ci_prefix k s \<longleftrightarrow> prefix (lower k) (lower s)"
  by (induction k s rule: ci_prefix.induct) (simp_all add: lower_def same_letter_lower)

lemma contains_ci_lower: "contains_ci name k = str_in (lower k) (lower name)"
proof (induction name)
  case Nil
  show ?case by (simp add: str_in_def lower_def)
next
  case (Cons c s)
  have "sublist (lower k) (lower (c # s))
          \<longleftrightarrow> prefix (lower k) (lower (c # s)) \<or> sublist (lower k) (lower s)"
    by (simp add: lower_def sublist_Cons_right)
  then show ?case
    using Cons.IH by (simp add: str_in_def ci_prefix_lower del: ci_prefix.simps)
qed

lemma contains_ci_iff:
  "contains_ci name k \<longleftrightarrow> (\<exists>ps ms ss. name = ps @ ms @ ss \<and> list_all2 same_letter k ms)"
proof -
  have l: "lower k = lower ms \<longleftrightarrow> list_all2 same_letter k ms" for ms
  proof (induction k arbitrary: ms)
    case Nil
    show ?case by (simp add: lower_def)
  next
    case (Cons a k)
    show ?case
    proof (cases ms)
      case Nil
      then show ?thesis by (simp add: lower_def)
    next
      case (Cons b ms')
      show ?thesis
        using Cons.IH [of ms'] by (simp add: Cons lower_def same_letter_lower)
    qed
  qed
  have "(\<exists>ps' ss'. lower name = ps' @ lower k @ ss')
          \<longleftrightarrow> (\<exists>ps ms ss. name = ps @ ms @ ss \<and> lower k = lower ms)"
  proof
    assume "\<exists>ps' ss'. lower name = ps' @ lower k @ ss'"
    then obtain ps' ss' where h: "map lower_char name = ps' @ (lower k @ ss')"
      unfolding lower_def [of name] by blast
    from iffD1 [OF map_eq_append_conv h]
    obtain ps vs where n: "name = ps @ vs" and v: "lower k @ ss' = map lower_char vs"
      by blast
    from iffD1 [OF append_eq_map_conv v]
    obtain ms ss where m: "vs = ms @ ss" "lower k = map lower_char ms"
      by blast
    have "name = ps @ ms @ ss \<and> lower k = lower ms"
      unfolding lower_def [of ms] using n m by blast
    then show "\<exists>ps ms ss. name = ps @ ms @ ss \<and> lower k = lower ms" by blast
  next
    assume "\<exists>ps ms ss. name = ps @ ms @ ss \<and> lower k = lower ms"
    then obtain ps ms ss where n: "name = ps @ ms @ ss" and m: "lower k = lower ms" by blast
    have "lower name = lower ps @ lower ms @ lower ss"
      unfolding n lower_def by (simp only: map_append)
    then show "\<exists>ps' ss'. lower name = ps' @ lower k @ ss'"
      unfolding m by blast
  qed
  then show ?thesis
    unfolding l contains_ci_lower str_in_def sublist_def .
qed

section \<open>Properties of mount enumeration\<close>

lemma collect_mounts_append:
  "collect_mounts acc (xs @ ys) = collect_mounts (collect_mounts acc xs) ys"
  by (induction xs arbitrary: acc) (simp_all add: Let_def)

lemma collect_mounts_skip:
  "length (split l) < 2 \<Longrightarrow> collect_mounts acc (l # rest) = collect_mounts acc rest"
  by simp

lemma set_collect_mounts:
  "set (collect_mounts acc ls) =
     set acc \<union> {m. \<exists>line \<in> set ls. 2 \<le> length (split line) \<and>
                     is_external_dev (split line ! 0) \<and> split line ! 1 = m}"
  by (induction ls arbitrary: acc) (auto simp add: Let_def)

lemma set_sorted_set: "set (sorted_set xs) = set xs"
  by (simp add: sorted_set_def)

lemma strict_sorted_set: "sorted_wrt (<) (sorted_set xs)"
  by (simp add: sorted_set_def strict_sorted_iff)

text \<open>
  Claim C7. On the mount table with the lines \<open>/dev/sda1 /media/usb1\<close>,
  \<open>/dev/sdb2 /mnt/data\<close> and \<open>/dev/loop0 /snap/x\<close> the enumeration returns exactly
  \<open>/media/usb1\<close> and \<open>/mnt/data\<close>; and for every table, a mount point is returned if and
  only if it is the second field of a line whose first field (the device) begins with
  \<open>/dev/sd\<close>, \<open>/dev/mmcblk\<close> or \<open>/dev/nvme\<close>.
\<close>

theorem find_mounts_external_prefixes:
  "find_mounts_external
     (Lines [''/dev/sda1 /media/usb1'', ''/dev/sdb2 /mnt/data'', ''/dev/loop0 /snap/x''])
   = [''/media/usb1'', ''/mnt/data'']
   \<and> (m \<in> set (find_mounts_external (Lines ls)) \<longleftrightarrow>
        (\<exists>line \<in> set ls. 2 \<le> length (split line) \<and> split line ! 1 = m \<and>
           (prefix ''/dev/sd'' (split line ! 0) \<or> prefix ''/dev/mmcblk'' (split line ! 0)
            \<or> prefix ''/dev/nvme'' (split line ! 0))))"
proof
  show "find_mounts_external
     (Lines [''/dev/sda1 /media/usb1'', ''/dev/sdb2 /mnt/data'', ''/dev/loop0 /snap/x''])
   = [''/media/usb1'', ''/mnt/data'']"
    by code_simp
next
  show "m \<in> set (find_mounts_external (Lines ls)) \<longleftrightarrow>
        (\<exists>line \<in> set ls. 2 \<le> length (split line) \<and> split line ! 1 = m \<and>
           (prefix ''/dev/sd'' (split line ! 0) \<or> prefix ''/dev/mmcblk'' (split line ! 0)
            \<or> prefix ''/dev/nvme'' (split line ! 0)))"
    unfolding find_mounts_external.simps set_sorted_set set_collect_mounts
      is_external_dev_def startswith_def
    by auto
qed

theorem find_mounts_external_prefixes_witness:
  "''/mnt/data'' \<in> set (find_mounts_external (Lines [''proc /proc proc rw 0 0'',
       ''/dev/nvme0n1p2 /mnt/data ext4 rw 0 0'', ''/dev/loop0 /snap/x squashfs ro 0 0'']))
   \<and> ''/snap/x'' \<notin> set (find_mounts_external (Lines [''proc /proc proc rw 0 0'',
       ''/dev/nvme0n1p2 /mnt/data ext4 rw 0 0'', ''/dev/loop0 /snap/x squashfs ro 0 0'']))"
proof -
  have s1: "split ''proc /proc proc rw 0 0'' = [''proc'', ''/proc'', ''proc'', ''rw'', ''0'', ''0'']"
    by code_simp
  have s2: "split ''/dev/nvme0n1p2 /mnt/data ext4 rw 0 0''
              = [''/dev/nvme0n1p2'', ''/mnt/data'', ''ext4'', ''rw'', ''0'', ''0'']"
    by code_simp
  have s3: "split ''/dev/loop0 /snap/x squashfs ro 0 0''
              = [''/dev/loop0'', ''/snap/x'', ''squashfs'', ''ro'', ''0'', ''0'']"
    by code_simp
  show ?thesis
    using find_mounts_external_prefixes [of "''/mnt/data''" "[''proc /proc proc rw 0 0'',
       ''/dev/nvme0n1p2 /mnt/data ext4 rw 0 0'', ''/dev/loop0 /snap/x squashfs ro 0 0'']"]
      find_mounts_external_prefixes [of "''/snap/x''" "[''proc /proc proc rw 0 0'',
       ''/dev/nvme0n1p2 /mnt/data ext4 rw 0 0'', ''/dev/loop0 /snap/x squashfs ro 0 0'']"]
    by (simp add: s1 s2 s3)
qed

text \<open>
  Claim C8, as amended. When the mount table cannot be opened (the file is missing,
  permission is denied, or any other failure of \<open>open\<close>), the enumeration returns the
  empty list. When reading fails after some lines have been read, it returns what it
  returns for a table that ends after those lines: the external mount points collected so
  far, sorted and without duplicates, which is the empty list exactly when none was
  collected. In no case does the exception reach the caller.
\<close>

theorem find_mounts_external_read_failure:
  "find_mounts_external (Open_failed e) = []
   \<and> find_mounts_external (Lines_then_failed ls) = find_mounts_external (Lines ls)
   \<and> sorted_wrt (<) (find_mounts_external (Lines_then_failed ls))
   \<and> set (find_mounts_external (Lines_then_failed ls)) = set (collect_mounts [] ls)
   \<and> (find_mounts_external (Lines_then_failed ls) = [] \<longleftrightarrow> collect_mounts [] ls = [])"
proof (intro conjI)
  show "find_mounts_external (Open_failed e) = []"
    by (simp add: sorted_set_def)
  show "find_mounts_external (Lines_then_failed ls) = find_mounts_external (Lines ls)"
    by simp
  show "sorted_wrt (<) (find_mounts_external (Lines_then_failed ls))"
    by (simp add: strict_sorted_set)
  show s: "set (find_mounts_external (Lines_then_failed ls)) = set (collect_mounts [] ls)"
    by (simp add: set_sorted_set)
  show "find_mounts_external (Lines_then_failed ls) = [] \<longleftrightarrow> collect_mounts [] ls = []"
    using s by (metis set_empty)
qed

text \<open>
  Claim C8 as stated fails for a failure of reading that comes after a line of an external
  device has been read: the mount point of that line is returned.
\<close>

theorem find_mounts_external_partial:
  "find_mounts_external (Lines_then_failed [''/dev/sda1 /mnt/a vfat rw 0 0'']) = [''/mnt/a'']
   \<and> find_mounts_external (Lines_then_failed [''/dev/sda1 /mnt/a vfat rw 0 0'']) \<noteq> []"
proof -
  have "find_mounts_external (Lines_then_failed [''/dev/sda1 /mnt/a vfat rw 0 0'']) = [''/mnt/a'']"
    by code_simp
  then show ?thesis by simp
qed

text \<open>
  Claim C10. For every mount table, the result is strictly ascending in the lexicographic
  order of strings (so it is sorted and has no duplicates), its elements are exactly the
  mount points collected by the loop, and a line with fewer than two whitespace-separated
  fields contributes nothing, wherever it stands in the table.
\<close>

theorem find_mounts_external_sorted_dedup:
  "sorted_wrt (<) (find_mounts_external pm)
   \<and> set (find_mounts_external (Lines ls)) = set (collect_mounts [] ls)
   \<and> (length (split l) < 2 \<longrightarrow>
        find_mounts_external (Lines (before @ l # after))
          = find_mounts_external (Lines (before @ after)))"
proof (intro conjI impI)
  show "sorted_wrt (<) (find_mounts_external pm)"
    by (cases pm) (simp_all add: strict_sorted_set)
next
  show "set (find_mounts_external (Lines ls)) = set (collect_mounts [] ls)"
    by (simp add: set_sorted_set)
next
  assume short: "length (split l) < 2"
  have "collect_mounts [] (before @ l # after) = collect_mounts [] (before @ after)"
    unfolding collect_mounts_append collect_mounts_skip [OF short] ..
  then show "find_mounts_external (Lines (before @ l # after))
          = find_mounts_external (Lines (before @ after))"
    by simp
qed

theorem find_mounts_external_sorted_dedup_witness:
  "length (split ''none'') < 2
   \<and> find_mounts_external (Lines ([''/dev/sdb1 /mnt/b'', ''/dev/sda1 /mnt/a''] @ ''none'' # [''/dev/sdb1 /mnt/b'']))
       = [''/mnt/a'', ''/mnt/b'']
   \<and> find_mounts_external (Lines ([''/dev/sdb1 /mnt/b'', ''/dev/sda1 /mnt/a''] @ [''/dev/sdb1 /mnt/b'']))
       = [''/mnt/a'', ''/mnt/b'']"
proof -
  have short: "length (split ''none'') < 2"
    by code_simp
  have r: "find_mounts_external (Lines ([''/dev/sdb1 /mnt/b'', ''/dev/sda1 /mnt/a''] @ [''/dev/sdb1 /mnt/b'']))
       = [''/mnt/a'', ''/mnt/b'']"
    by code_simp
  show ?thesis
    using short r
      find_mounts_external_sorted_dedup [of "Lines []" "[]" "''none''"
        "[''/dev/sdb1 /mnt/b'', ''/dev/sda1 /mnt/a'']" "[''/dev/sdb1 /mnt/b'']"]
    by simp
qed

section \<open>Properties of the search worker\<close>

subsection \<open>Logs\<close>

lemma clean_simps [simp]:
  "clean []" "clean (xs @ ys) = (clean xs \<and> clean ys)"
  "clean (e # es) = (e \<noteq> Finished \<and> e \<noteq> IsSet True \<and> clean es)"
  by (auto simp: clean_def)

lemma extends_refl: "extends w w"
  by (simp add: extends_def)

lemma extends_trans: "extends w w1 \<Longrightarrow> extends w1 w2 \<Longrightarrow> extends w w2"
  unfolding extends_def
proof (elim exE conjE)
  fix es es'
  assume "log w1 = log w @ es" "clean es" "log w2 = log w1 @ es'" "clean es'"
  then have "log w2 = log w @ (es @ es') \<and> clean (es @ es')" by simp
  then show "\<exists>es. log w2 = log w @ es \<and> clean es" by blast
qed

lemma extends_prefix: "extends w w' \<Longrightarrow> prefix (log w) (log w')"
  by (auto simp: extends_def)

lemma extends_cancelled:
  assumes "extends w w1" "cancelled_in w1 w' w0"
  shows "cancelled_in w w' w0"
proof -
  from assms obtain es es' where
    a: "log w1 = log w @ es" "clean es"
    and b: "log w' = log w1 @ es' @ [IsSet True, Finished]" "clean es'"
      "prefix (log w1 @ es' @ [IsSet False]) (log w0)"
    unfolding extends_def cancelled_in_def by blast
  have "log w' = log w @ (es @ es') @ [IsSet True, Finished] \<and> clean (es @ es')
          \<and> prefix (log w @ (es @ es') @ [IsSet False]) (log w0)"
    using a b by simp
  then show ?thesis unfolding cancelled_in_def by blast
qed

lemma cancelled_extends:
  assumes "cancelled_in w w' w0" "extends w0 w1"
  shows "cancelled_in w w' w1"
proof -
  from assms(1) obtain es where
    a: "log w' = log w @ es @ [IsSet True, Finished]" "clean es"
      "prefix (log w @ es @ [IsSet False]) (log w0)"
    unfolding cancelled_in_def by blast
  have "prefix (log w @ es @ [IsSet False]) (log w1)"
    using a(3) extends_prefix [OF assms(2)] by (rule prefix_order.trans)
  with a show ?thesis unfolding cancelled_in_def by blast
qed

subsection \<open>A cancellable run against the run that is not cancelled\<close>

lemma sim_pure: "extends w (g w) \<Longrightarrow> sim w (Running (g w)) (Running (g w))"
  by (simp add: sim_def)

lemma sim_check: "sim w (check stop w) (check never_set w)"
proof (cases "stop (reads w)")
  case True
  have "cancelled_in w (emit Finished (w\<lparr>reads := Suc (reads w), log := log w @ [IsSet True]\<rparr>))
          (w\<lparr>reads := Suc (reads w), log := log w @ [IsSet False]\<rparr>)"
    unfolding cancelled_in_def by (rule exI [of _ "[]"]) (simp add: emit_def)
  moreover have "extends w (w\<lparr>reads := Suc (reads w), log := log w @ [IsSet False]\<rparr>)"
    by (simp add: extends_def)
  ultimately show ?thesis
    using True by (simp add: sim_def check_def is_set_def never_set_def)
next
  case False
  have "extends w (w\<lparr>reads := Suc (reads w), log := log w @ [IsSet False]\<rparr>)"
    by (simp add: extends_def)
  then show ?thesis
    using False by (simp add: sim_def check_def is_set_def never_set_def)
qed

lemma sim_andthen:
  assumes first: "sim w r r0" and rest: "\<And>w1. sim w1 (f w1) (f0 w1)"
  shows "sim w (andthen r f) (andthen r0 f0)"
proof -
  from first obtain w0 where r0: "r0 = Running w0" and e0: "extends w w0"
    and c: "case r of Running w' \<Rightarrow> w' = w0 | Returned w' \<Rightarrow> cancelled_in w w' w0"
    unfolding sim_def by blast
  from rest [of w0] obtain w1 where f0: "f0 w0 = Running w1" and e1: "extends w0 w1"
    and c1: "case f w0 of Running w' \<Rightarrow> w' = w1 | Returned w' \<Rightarrow> cancelled_in w0 w' w1"
    unfolding sim_def by blast
  have e: "extends w w1" using e0 e1 by (rule extends_trans)
  show ?thesis
  proof (cases r)
    case (Returned w')
    with c have "cancelled_in w w' w0" by simp
    then have "cancelled_in w w' w1" using e1 by (rule cancelled_extends)
    then show ?thesis
      using Returned r0 f0 e by (simp add: sim_def andthen_def)
  next
    case (Running w')
    with c have w': "w' = w0" by simp
    show ?thesis
    proof (cases "f w0")
      case (Returned w'')
      with c1 have "cancelled_in w0 w'' w1" by simp
      with e0 have "cancelled_in w w'' w1" by (rule extends_cancelled)
      then show ?thesis
        using Running w' Returned r0 f0 e by (simp add: sim_def andthen_def)
    next
      case Running2: (Running w'')
      with c1 have "w'' = w1" by simp
      then show ?thesis
        using Running w' Running2 r0 f0 e by (simp add: sim_def andthen_def)
    qed
  qed
qed

lemma for_fname_Cons:
  "for_fname stop k d (f # fs) w =
     andthen (check stop w) (\<lambda>w1. for_fname stop k d fs (match_file k d f w1))"
  by (simp add: andthen_def check_def Let_def split: prod.splits)

lemma visit_dir_unfold:
  "visit_dir stop k (d, ds, fs) w =
     andthen (check stop w) (\<lambda>w1.
       andthen (for_fname stop k d fs (match_dir k d w1)) (\<lambda>w2. Running (count_dir w2)))"
  by (simp add: visit_dir_def andthen_def check_def Let_def split: prod.splits flow.splits)

lemma for_entry_Cons:
  "for_entry stop k (e # es) w = andthen (visit_dir stop k e w) (for_entry stop k es)"
  by (simp add: andthen_def)

lemma for_root_Cons:
  "for_root walk stop k (r # rs) w =
     andthen (for_entry stop k (walk r) w) (for_root walk stop k rs)"
  by (simp add: andthen_def)

lemma extends_match_file: "extends w (match_file k d f w)"
  by (simp add: match_file_def extends_def emit_def)

lemma extends_match_dir: "extends w (match_dir k d w)"
  by (simp add: match_dir_def extends_def emit_def)

lemma extends_count_dir: "extends w (count_dir w)"
  by (simp add: count_dir_def extends_def emit_def Let_def)

lemma sim_extends:
  assumes e: "extends w w1" and s: "sim w1 r r0"
  shows "sim w r r0"
proof -
  from s obtain w0 where r0: "r0 = Running w0" and e0: "extends w1 w0"
    and c: "case r of Running w' \<Rightarrow> w' = w0 | Returned w' \<Rightarrow> cancelled_in w1 w' w0"
    unfolding sim_def by blast
  have "extends w w0" using e e0 by (rule extends_trans)
  moreover have "case r of Running w' \<Rightarrow> w' = w0 | Returned w' \<Rightarrow> cancelled_in w w' w0"
    using c extends_cancelled [OF e] by (cases r) simp_all
  ultimately show ?thesis using r0 unfolding sim_def by blast
qed

lemma for_fname_sim: "sim w (for_fname stop k d fs w) (for_fname never_set k d fs w)"
proof (induction fs arbitrary: w)
  case Nil
  show ?case by (simp add: sim_def extends_refl)
next
  case (Cons f fs)
  show ?case
    unfolding for_fname_Cons
    by (rule sim_andthen [OF sim_check]) (rule sim_extends [OF extends_match_file Cons.IH])
qed

lemma visit_dir_sim: "sim w (visit_dir stop k e w) (visit_dir never_set k e w)"
proof (cases e)
  case (fields d ds fs)
  show ?thesis
    unfolding fields visit_dir_unfold
    apply (rule sim_andthen [OF sim_check])
    apply (rule sim_extends [OF extends_match_dir])
    apply (rule sim_andthen [OF for_fname_sim])
    apply (rule sim_pure [OF extends_count_dir])
    done
qed

lemma for_entry_sim: "sim w (for_entry stop k es w) (for_entry never_set k es w)"
proof (induction es arbitrary: w)
  case Nil
  show ?case by (simp add: sim_def extends_refl)
next
  case (Cons e es)
  show ?case
    unfolding for_entry_Cons by (rule sim_andthen [OF visit_dir_sim Cons.IH])
qed

lemma for_root_sim: "sim w (for_root walk stop k rs w) (for_root walk never_set k rs w)"
proof (induction rs arbitrary: w)
  case Nil
  show ?case by (simp add: sim_def extends_refl)
next
  case (Cons r rs)
  show ?case
    unfolding for_root_Cons by (rule sim_andthen [OF for_entry_sim Cons.IH])
qed


subsection \<open>The run that is not cancelled\<close>

lemma found_paths_simps [simp]:
  "found_paths [] = []" "found_paths (xs @ ys) = found_paths xs @ found_paths ys"
  "found_paths (e # es) = found_of e @ found_paths es"
  by (simp_all add: found_paths_def)

lemma progress_values_simps [simp]:
  "progress_values [] = []" "progress_values (xs @ ys) = progress_values xs @ progress_values ys"
  "progress_values (e # es) = progress_of e @ progress_values es"
  by (simp_all add: progress_values_def)

lemma effect_refl: "effect w w [] 0 0"
  by (simp add: effect_def)

lemma effect_trans:
  "effect w w1 ps t r \<Longrightarrow> effect w1 w2 ps' t' r' \<Longrightarrow> effect w w2 (ps @ ps') (t + t') (r + r')"
  by (simp add: effect_def)

lemma never_running:
  "\<exists>w0. for_fname never_set k d fs w = Running w0"
  "\<exists>w0. visit_dir never_set k e w = Running w0"
  "\<exists>w0. for_entry never_set k es w = Running w0"
  "\<exists>w0. for_root walk never_set k rs w = Running w0"
  using for_fname_sim [of w never_set k d fs] visit_dir_sim [of w never_set k e]
    for_entry_sim [of w never_set k es] for_root_sim [of w walk never_set k rs]
  unfolding sim_def by blast+

lemma check_never: "check never_set w = Running (w\<lparr>reads := Suc (reads w), log := log w @ [IsSet False]\<rparr>)"
  by (simp add: check_def is_set_def never_set_def)

lemma for_fname_effect:
  "for_fname never_set k d fs w = Running w0 \<Longrightarrow>
     effect w w0 (map (join d) (filter (\<lambda>f. str_in k (lower f)) fs)) 0 (length fs)"
proof (induction fs arbitrary: w)
  case Nil
  then show ?case by (auto simp: effect_def)
next
  case (Cons f fs)
  let ?w1 = "match_file k d f (w\<lparr>reads := Suc (reads w), log := log w @ [IsSet False]\<rparr>)"
  have "for_fname never_set k d fs ?w1 = Running w0"
    using Cons.prems unfolding for_fname_Cons check_never by (simp add: andthen_def)
  from Cons.IH [OF this]
  show ?case
    by (simp add: effect_def match_file_def emit_def Let_def)
qed

lemma visit_dir_effect:
  assumes "visit_dir never_set k e w = Running w0"
  shows "effect w w0 (dir_matches k e) 1 (checkpoints e)"
proof (cases e)
  case (fields d ds fs)
  let ?w1 = "match_dir k d (w\<lparr>reads := Suc (reads w), log := log w @ [IsSet False]\<rparr>)"
  obtain w2 where w2: "for_fname never_set k d fs ?w1 = Running w2"
    using never_running(1) by blast
  have w0: "w0 = count_dir w2"
    using assms w2 by (simp add: fields visit_dir_unfold check_never andthen_def)
  show ?thesis
    using for_fname_effect [OF w2]
    by (simp add: w0 fields effect_def dir_matches_def checkpoints_def match_dir_def
          count_dir_def emit_def Let_def)
qed

lemma for_entry_effect:
  "for_entry never_set k es w = Running w0 \<Longrightarrow>
     effect w w0 (concat (map (dir_matches k) es)) (length es) (sum_list (map checkpoints es))"
proof (induction es arbitrary: w)
  case Nil
  then show ?case by (auto simp: effect_def)
next
  case (Cons e es)
  obtain w1 where w1: "visit_dir never_set k e w = Running w1"
    using never_running(2) by blast
  then have "for_entry never_set k es w1 = Running w0"
    using Cons.prems by simp
  from effect_trans [OF visit_dir_effect [OF w1] Cons.IH [OF this]]
  show ?case by simp
qed

lemma for_root_effect:
  "for_root walk never_set k rs w = Running w0 \<Longrightarrow>
     effect w w0 (concat (map (dir_matches k) (all_entries walk rs)))
       (length (all_entries walk rs)) (sum_list (map checkpoints (all_entries walk rs)))"
proof (induction rs arbitrary: w)
  case Nil
  then show ?case by (auto simp: effect_def all_entries_def)
next
  case (Cons r rs)
  obtain w1 where w1: "for_entry never_set k (walk r) w = Running w1"
    using never_running(3) by blast
  then have "for_root walk never_set k rs w1 = Running w0"
    using Cons.prems by simp
  from effect_trans [OF for_entry_effect [OF w1] Cons.IH [OF this]]
  show ?case by (simp add: all_entries_def)
qed

subsection \<open>The counter and the progress signals\<close>

lemma tracks_refl: "tracks 0 w w"
  by (simp add: tracks_def)

lemma tracks_trans: "tracks n w w1 \<Longrightarrow> tracks m w1 w2 \<Longrightarrow> tracks (n + m) w w2"
  by (auto simp: tracks_def)

lemma tracks_weaken: "tracks n w w' \<Longrightarrow> n \<le> m \<Longrightarrow> tracks m w w'"
  by (auto simp: tracks_def)

lemma tracks_same:
  "progress_values (log w') = progress_values (log w) \<Longrightarrow> total_n w' = total_n w \<Longrightarrow> tracks 0 w w'"
  by (simp add: tracks_def progress_ok_def)

lemma tracks_check: "tracks 0 w (state_of (check stop w))"
  by (rule tracks_same) (simp_all add: check_def is_set_def emit_def)

lemma tracks_match_file: "tracks 0 w (match_file k d f w)"
  by (rule tracks_same) (simp_all add: match_file_def emit_def Let_def)

lemma tracks_match_dir: "tracks 0 w (match_dir k d w)"
  by (rule tracks_same) (simp_all add: match_dir_def emit_def Let_def)

lemma div_500_step:
  "Suc t mod 500 = 0 \<Longrightarrow> Suc t div 500 = Suc (t div 500)"
  "Suc t mod 500 = 0 \<Longrightarrow> 500 * Suc (t div 500) = Suc t"
  "Suc t mod 500 \<noteq> 0 \<Longrightarrow> Suc t div 500 = t div 500"
proof -
  show a: "Suc t div 500 = Suc (t div 500)" if "Suc t mod 500 = 0"
    using that by (simp only: div_Suc refl if_True)
  show "500 * Suc (t div 500) = Suc t" if z: "Suc t mod 500 = 0"
  proof -
    have "500 * (Suc t div 500) + Suc t mod 500 = Suc t"
      by (rule mult_div_mod_eq)
    then show ?thesis unfolding a [OF z] z by simp
  qed
  show "Suc t div 500 = t div 500" if "Suc t mod 500 \<noteq> 0"
    using that by (simp only: div_Suc if_False)
qed

lemma tracks_count_dir: "tracks (Suc 0) w (count_dir w)"
proof -
  have "progress_ok (count_dir w)" if ok: "progress_ok w"
  proof (cases "Suc (total_n w) mod 500 = 0")
    case True
    show ?thesis
      using ok True div_500_step(1,2) [OF True]
      by (simp add: progress_ok_def count_dir_def emit_def Let_def)
  next
    case False
    show ?thesis
      using ok False div_500_step(3) [OF False]
      by (simp add: progress_ok_def count_dir_def emit_def Let_def)
  qed
  then show ?thesis
    by (simp add: tracks_def count_dir_def emit_def Let_def)
qed

lemma tracks_andthen:
  assumes "tracks n w (state_of r)" and "\<And>w1. tracks m w1 (state_of (f w1))"
  shows "tracks (n + m) w (state_of (andthen r f))"
proof (cases r)
  case (Returned w')
  then show ?thesis
    using assms(1) by (simp add: andthen_def tracks_weaken)
next
  case (Running w')
  with assms(1) have "tracks n w w'" by simp
  from tracks_trans [OF this assms(2) [of w']]
  show ?thesis using Running by (simp add: andthen_def)
qed

lemma for_fname_tracks: "tracks 0 w (state_of (for_fname stop k d fs w))"
proof (induction fs arbitrary: w)
  case Nil
  show ?case by (simp add: tracks_refl)
next
  case (Cons f fs)
  have "tracks 0 w1 (state_of (for_fname stop k d fs (match_file k d f w1)))" for w1
    using tracks_trans [OF tracks_match_file Cons.IH] by simp
  from tracks_andthen [OF tracks_check this]
  show ?case unfolding for_fname_Cons by simp
qed

lemma visit_dir_tracks: "tracks (Suc 0) w (state_of (visit_dir stop k e w))"
proof (cases e)
  case (fields d ds fs)
  have a: "tracks (Suc 0) w2 (state_of (Running (count_dir w2)))" for w2
    by (simp add: tracks_count_dir)
  have "tracks 0 w1 (state_of (for_fname stop k d fs (match_dir k d w1)))" for w1
    using tracks_trans [OF tracks_match_dir for_fname_tracks] by simp
  from tracks_andthen [OF this a]
  have "tracks (Suc 0) w1 (state_of (andthen (for_fname stop k d fs (match_dir k d w1))
          (\<lambda>w2. Running (count_dir w2))))" for w1
    by simp
  from tracks_andthen [OF tracks_check this]
  show ?thesis unfolding fields visit_dir_unfold by simp
qed

lemma for_entry_tracks: "tracks (length es) w (state_of (for_entry stop k es w))"
proof (induction es arbitrary: w)
  case Nil
  show ?case by (simp add: tracks_refl)
next
  case (Cons e es)
  from tracks_andthen [OF visit_dir_tracks Cons.IH]
  show ?case unfolding for_entry_Cons by simp
qed

lemma for_root_tracks:
  "tracks (length (all_entries walk rs)) w (state_of (for_root walk stop k rs w))"
proof (induction rs arbitrary: w)
  case Nil
  show ?case by (simp add: tracks_refl all_entries_def)
next
  case (Cons r rs)
  from tracks_andthen [OF for_entry_tracks Cons.IH]
  show ?case unfolding for_root_Cons by (simp add: all_entries_def)
qed


subsection \<open>Whole runs\<close>

lemma signals_simps [simp]:
  "signals [] = []" "signals (xs @ ys) = signals xs @ signals ys"
  "signals (e # es) = (if is_read e then signals es else e # signals es)"
  by (simp_all add: signals_def)

lemma set_signals: "set (signals es) \<subseteq> set es"
  by (auto simp: signals_def)

lemma run_shape:
  "\<exists>w0 es0. for_root walk never_set (keyword self) (roots self) \<lparr>total_n = 0, reads = 0, log = []\<rparr>
              = Running w0
     \<and> log w0 = es0 \<and> clean es0
     \<and> log (run walk never_set self) = es0 @ [Finished]
     \<and> (log (run walk stop self) = es0 @ [Finished]
        \<or> (\<exists>es. log (run walk stop self) = es @ [IsSet True, Finished] \<and> clean es \<and> prefix es es0
              \<and> prefix (es @ [IsSet False]) es0))"
proof -
  let ?i = "\<lparr>total_n = 0, reads = 0, log = []\<rparr>"
  let ?k = "keyword self" and ?rs = "roots self"
  from for_root_sim [of ?i walk stop ?k ?rs]
  obtain w0 where n: "for_root walk never_set ?k ?rs ?i = Running w0" and e: "extends ?i w0"
    and c: "case for_root walk stop ?k ?rs ?i of Running w' \<Rightarrow> w' = w0
            | Returned w' \<Rightarrow> cancelled_in ?i w' w0"
    unfolding sim_def by blast
  have cl: "clean (log w0)" using e by (auto simp: extends_def)
  have rn: "log (run walk never_set self) = log w0 @ [Finished]"
    by (simp add: run_def n emit_def)
  have "log (run walk stop self) = log w0 @ [Finished]
        \<or> (\<exists>es. log (run walk stop self) = es @ [IsSet True, Finished] \<and> clean es \<and> prefix es (log w0)
              \<and> prefix (es @ [IsSet False]) (log w0))"
  proof (cases "for_root walk stop ?k ?rs ?i")
    case (Returned w')
    with c have "cancelled_in ?i w' w0" by simp
    then obtain es where es: "log w' = es @ [IsSet True, Finished]" "clean es"
      "prefix (es @ [IsSet False]) (log w0)"
      unfolding cancelled_in_def by auto
    from es(3) have "prefix es (log w0)" by (rule append_prefixD)
    with es show ?thesis
      by (auto simp: run_def Returned)
  next
    case (Running w')
    with c have "w' = w0" by simp
    then show ?thesis
      by (simp add: run_def Running emit_def)
  qed
  with n cl rn show ?thesis by blast
qed

lemma unique_split:
  assumes "pre @ a # post = es @ [a, b]" "a \<notin> set es" "a \<noteq> b"
  shows "pre = es \<and> post = [b]"
  using assms
  by (auto simp: append_eq_append_conv2 append_eq_Cons_conv Cons_eq_append_conv)

lemma count_list_append [simp]: "count_list (xs @ ys) a = count_list xs a + count_list ys a"
  by (induction xs) simp_all

lemma count_list_0: "a \<notin> set xs \<Longrightarrow> count_list xs a = 0"
  by (induction xs) auto

lemma read_values_simps [simp]:
  "read_values [] = []" "read_values (xs @ ys) = read_values xs @ read_values ys"
  "read_values (e # es) = read_value e @ read_values es"
  by (simp_all add: read_values_def)

lemma without_progress_simps [simp]:
  "without_progress [] = []"
  "without_progress (xs @ ys) = without_progress xs @ without_progress ys"
  "without_progress (e # es) = (if is_progress e then without_progress es else e # without_progress es)"
  by (simp_all add: without_progress_def)

subsection \<open>The reads of the flag\<close>

lemma follows_check: "follows stop w \<Longrightarrow> follows stop (state_of (check stop w))"
  by (simp add: follows_def check_def is_set_def emit_def)

lemma follows_same:
  "follows stop w \<Longrightarrow> reads w' = reads w \<Longrightarrow> read_values (log w') = read_values (log w) \<Longrightarrow>
     follows stop w'"
  by (simp add: follows_def)

lemma follows_match_file: "follows stop w \<Longrightarrow> follows stop (match_file k d f w)"
  by (erule follows_same) (simp_all add: match_file_def emit_def Let_def)

lemma follows_match_dir: "follows stop w \<Longrightarrow> follows stop (match_dir k d w)"
  by (erule follows_same) (simp_all add: match_dir_def emit_def Let_def)

lemma follows_count_dir: "follows stop w \<Longrightarrow> follows stop (count_dir w)"
  by (erule follows_same) (simp_all add: count_dir_def emit_def Let_def)

lemma follows_andthen:
  assumes "follows stop (state_of r)" and "\<And>w1. follows stop w1 \<Longrightarrow> follows stop (state_of (f w1))"
  shows "follows stop (state_of (andthen r f))"
proof (cases r)
  case (Returned w')
  then show ?thesis using assms(1) by (simp add: andthen_def)
next
  case (Running w')
  with assms(1) have "follows stop w'" by simp
  from assms(2) [OF this] show ?thesis using Running by (simp add: andthen_def)
qed

lemma for_fname_follows: "follows stop w \<Longrightarrow> follows stop (state_of (for_fname stop k d fs w))"
proof (induction fs arbitrary: w)
  case Nil
  then show ?case by simp
next
  case (Cons f fs)
  show ?case
    unfolding for_fname_Cons
    by (rule follows_andthen [OF follows_check [OF Cons.prems]])
       (rule Cons.IH [OF follows_match_file])
qed

lemma visit_dir_follows: "follows stop w \<Longrightarrow> follows stop (state_of (visit_dir stop k e w))"
proof (cases e)
  case (fields d ds fs)
  assume w: "follows stop w"
  show ?thesis
    unfolding fields visit_dir_unfold
    apply (rule follows_andthen [OF follows_check [OF w]])
    apply (rule follows_andthen)
     apply (rule for_fname_follows [OF follows_match_dir])
     apply assumption
    apply (simp add: follows_count_dir)
    done
qed

lemma for_entry_follows: "follows stop w \<Longrightarrow> follows stop (state_of (for_entry stop k es w))"
proof (induction es arbitrary: w)
  case Nil
  then show ?case by simp
next
  case (Cons e es)
  show ?case
    unfolding for_entry_Cons
    by (rule follows_andthen [OF visit_dir_follows [OF Cons.prems]]) (rule Cons.IH)
qed

lemma for_root_follows:
  "follows stop w \<Longrightarrow> follows stop (state_of (for_root walk stop k rs w))"
proof (induction rs arbitrary: w)
  case Nil
  then show ?case by simp
next
  case (Cons r rs)
  show ?case
    unfolding for_root_Cons
    by (rule follows_andthen [OF for_entry_follows [OF Cons.prems]]) (rule Cons.IH)
qed

lemma run_reads_logged:
  "length (read_values (log (run walk stop self))) = reads (run walk stop self)"
proof -
  let ?i = "\<lparr>total_n = 0, reads = 0, log = []\<rparr>"
  let ?r = "for_root walk stop (keyword self) (roots self) ?i"
  have "follows stop ?i" by (simp add: follows_def)
  then have "follows stop (state_of ?r)" by (rule for_root_follows)
  then have "length (read_values (log (state_of ?r))) = reads (state_of ?r)"
    by (simp add: follows_def)
  then show ?thesis
    by (cases ?r) (simp_all add: run_def emit_def)
qed

lemma run_follows:
  "read_values (log (run walk stop self))
     = map stop [0..<length (read_values (log (run walk stop self)))]"
proof -
  let ?i = "\<lparr>total_n = 0, reads = 0, log = []\<rparr>"
  let ?r = "for_root walk stop (keyword self) (roots self) ?i"
  have "follows stop ?i" by (simp add: follows_def)
  then have f: "follows stop (state_of ?r)" by (rule for_root_follows)
  have e: "read_values (log (run walk stop self)) = read_values (log (state_of ?r))"
    by (cases ?r) (simp_all add: run_def emit_def)
  have m: "read_values (log (state_of ?r)) = map stop [0..<reads (state_of ?r)]"
    using f by (simp add: follows_def)
  then have "length (read_values (log (state_of ?r))) = reads (state_of ?r)"
    by simp
  then show ?thesis unfolding e using m by simp
qed

subsection \<open>The log of the run that is not cancelled\<close>

lemma shape_trans: "shape w w1 es \<Longrightarrow> shape w1 w2 es' \<Longrightarrow> shape w w2 (es @ es')"
  by (simp add: shape_def)

lemma for_fname_logged:
  "for_fname never_set k d fs w = Running w0 \<Longrightarrow>
     shape w w0 (concat (map (file_events k d) fs))"
proof (induction fs arbitrary: w)
  case Nil
  then show ?case by (auto simp: shape_def)
next
  case (Cons f fs)
  let ?w1 = "match_file k d f (w\<lparr>reads := Suc (reads w), log := log w @ [IsSet False]\<rparr>)"
  have "for_fname never_set k d fs ?w1 = Running w0"
    using Cons.prems unfolding for_fname_Cons check_never by (simp add: andthen_def)
  from Cons.IH [OF this]
  show ?case
    by (simp add: shape_def match_file_def emit_def file_events_def Let_def)
qed

lemma visit_dir_logged:
  assumes "visit_dir never_set k e w = Running w0"
  shows "shape w w0 (visit_events k e)"
proof (cases e)
  case (fields d ds fs)
  let ?w1 = "match_dir k d (w\<lparr>reads := Suc (reads w), log := log w @ [IsSet False]\<rparr>)"
  obtain w2 where w2: "for_fname never_set k d fs ?w1 = Running w2"
    using never_running(1) by blast
  have w0: "w0 = count_dir w2"
    using assms w2 by (simp add: fields visit_dir_unfold check_never andthen_def)
  show ?thesis
    using for_fname_logged [OF w2]
    by (simp add: w0 fields shape_def visit_events_def match_dir_def count_dir_def emit_def Let_def)
qed

lemma for_entry_logged:
  "for_entry never_set k es w = Running w0 \<Longrightarrow> shape w w0 (concat (map (visit_events k) es))"
proof (induction es arbitrary: w)
  case Nil
  then show ?case by (auto simp: shape_def)
next
  case (Cons e es)
  obtain w1 where w1: "visit_dir never_set k e w = Running w1"
    using never_running(2) by blast
  then have "for_entry never_set k es w1 = Running w0"
    using Cons.prems by simp
  from shape_trans [OF visit_dir_logged [OF w1] Cons.IH [OF this]]
  show ?case by simp
qed

lemma for_root_logged:
  "for_root walk never_set k rs w = Running w0 \<Longrightarrow>
     shape w w0 (concat (map (visit_events k) (all_entries walk rs)))"
proof (induction rs arbitrary: w)
  case Nil
  then show ?case by (auto simp: shape_def all_entries_def)
next
  case (Cons r rs)
  obtain w1 where w1: "for_entry never_set k (walk r) w = Running w1"
    using never_running(3) by blast
  then have "for_root walk never_set k rs w1 = Running w0"
    using Cons.prems by simp
  from shape_trans [OF for_entry_logged [OF w1] Cons.IH [OF this]]
  show ?case by (simp add: all_entries_def)
qed

lemma run_never_shape:
  "without_progress (log (run walk never_set self))
     = concat (map (visit_events (keyword self)) (all_entries walk (roots self))) @ [Finished]"
proof -
  let ?i = "\<lparr>total_n = 0, reads = 0, log = []\<rparr>"
  from run_shape [of walk self never_set]
  obtain w0 where n: "for_root walk never_set (keyword self) (roots self) ?i = Running w0"
    by blast
  from for_root_logged [OF n]
  show ?thesis
    by (simp add: run_def n emit_def shape_def)
qed


subsection \<open>The first read that sees the flag set\<close>

lemma not_read_value: "\<not> is_read e \<Longrightarrow> read_value e = []"
  by (cases e) simp_all

lemma before_read_split:
  "before_read (length (read_values es)) (es @ IsSet b # rest) = es"
proof (induction es)
  case Nil
  show ?case by simp
next
  case (Cons e es)
  show ?case
  proof (cases e)
    case (IsSet c)
    then show ?thesis using Cons.IH by simp
  qed (use Cons.IH in simp_all)
qed

lemma clean_read_values: "clean es \<Longrightarrow> b \<in> set (read_values es) \<Longrightarrow> \<not> b"
proof (induction es)
  case Nil
  then show ?case by simp
next
  case (Cons e es)
  then show ?case by (cases e) auto
qed

lemma stop_values:
  assumes "read_values es = map stop [0..<length (read_values es)]" "clean pre"
    and "read_values es = read_values pre @ tl_values"
  shows "\<forall>i < length (read_values pre). \<not> stop i"
proof (intro allI impI)
  fix i assume i: "i < length (read_values pre)"
  then have il: "i < length (read_values es)" using assms(3) by simp
  have "read_values es ! i = stop i"
    using il by (subst assms(1)) simp
  moreover have "read_values es ! i = read_values pre ! i"
    using i by (simp add: assms(3) nth_append)
  moreover have "\<not> read_values pre ! i"
    using clean_read_values [OF assms(2)] i nth_mem by blast
  ultimately show "\<not> stop i" by simp
qed

lemma run_outcome:
  "\<exists>es0. log (run walk never_set self) = es0 @ [Finished] \<and> clean es0
     \<and> ((log (run walk stop self) = es0 @ [Finished]
          \<and> (\<forall>i < length (read_values es0). \<not> stop i))
        \<or> (\<exists>es rest. log (run walk stop self) = es @ [IsSet True, Finished] \<and> clean es
              \<and> es0 = es @ IsSet False # rest
              \<and> stop (length (read_values es))
              \<and> (\<forall>i < length (read_values es). \<not> stop i)))"
proof -
  from run_shape [of walk self stop]
  obtain es0 where n: "log (run walk never_set self) = es0 @ [Finished]" and cl: "clean es0"
    and c: "log (run walk stop self) = es0 @ [Finished]
        \<or> (\<exists>es. log (run walk stop self) = es @ [IsSet True, Finished] \<and> clean es
              \<and> prefix es es0 \<and> prefix (es @ [IsSet False]) es0)"
    by blast
  let ?l = "log (run walk stop self)"
  have f: "read_values ?l = map stop [0..<length (read_values ?l)]"
    by (rule run_follows)
  from c show ?thesis
  proof
    assume l: "?l = es0 @ [Finished]"
    have "\<forall>i < length (read_values es0). \<not> stop i"
      by (rule stop_values [OF f cl, of "[]"]) (simp add: l)
    with n cl l show ?thesis by blast
  next
    assume "\<exists>es. ?l = es @ [IsSet True, Finished] \<and> clean es
              \<and> prefix es es0 \<and> prefix (es @ [IsSet False]) es0"
    then obtain es where l: "?l = es @ [IsSet True, Finished]" and ces: "clean es"
      and p: "prefix (es @ [IsSet False]) es0"
      by blast
    from p obtain rest where r: "es0 = es @ IsSet False # rest"
      by (auto simp: prefix_def)
    have rv: "read_values ?l = read_values es @ [True]"
      by (simp add: l)
    have none: "\<forall>i < length (read_values es). \<not> stop i"
      by (rule stop_values [OF f ces rv])
    from f [unfolded rv] have "stop (length (read_values es))"
      by simp
    with n cl l ces r none show ?thesis by blast
  qed
qed

lemma first_unique:
  assumes "\<forall>i<n. \<not> stop i" "stop n" "\<forall>i<m. \<not> stop i" "stop (m::nat)"
  shows "n = m"
  using assms by (meson linorder_neqE_nat)

lemma run_first_set:
  assumes "\<forall>i<n. \<not> stop i" "stop n"
    and "n < length (read_values (log (run walk never_set self)))"
  shows "log (run walk stop self)
           = before_read n (log (run walk never_set self)) @ [IsSet True, Finished]"
proof -
  from run_outcome [of walk self stop]
  obtain es0 where n0: "log (run walk never_set self) = es0 @ [Finished]"
    and c: "(log (run walk stop self) = es0 @ [Finished]
          \<and> (\<forall>i < length (read_values es0). \<not> stop i))
        \<or> (\<exists>es rest. log (run walk stop self) = es @ [IsSet True, Finished] \<and> clean es
              \<and> es0 = es @ IsSet False # rest
              \<and> stop (length (read_values es))
              \<and> (\<forall>i < length (read_values es). \<not> stop i))"
    by blast
  have len: "n < length (read_values es0)"
    using assms(3) by (simp add: n0)
  from c show ?thesis
  proof
    assume "log (run walk stop self) = es0 @ [Finished]
          \<and> (\<forall>i < length (read_values es0). \<not> stop i)"
    then have False using len assms(2) by blast
    then show ?thesis ..
  next
    assume "\<exists>es rest. log (run walk stop self) = es @ [IsSet True, Finished] \<and> clean es
              \<and> es0 = es @ IsSet False # rest
              \<and> stop (length (read_values es))
              \<and> (\<forall>i < length (read_values es). \<not> stop i)"
    then obtain es rest where l: "log (run walk stop self) = es @ [IsSet True, Finished]"
      and r: "es0 = es @ IsSet False # rest"
      and s: "stop (length (read_values es))" "\<forall>i < length (read_values es). \<not> stop i"
      by blast
    have nm: "n = length (read_values es)"
      using assms(1,2) s(2,1) by (rule first_unique)
    have "before_read n (es0 @ [Finished]) = es"
      unfolding nm r using before_read_split [of es False "rest @ [Finished]"] by simp
    then show ?thesis by (simp add: l n0)
  qed
qed

lemma run_not_noticed:
  assumes "\<forall>i < length (read_values (log (run walk never_set self))). \<not> stop i"
  shows "log (run walk stop self) = log (run walk never_set self)"
proof -
  from run_outcome [of walk self stop]
  obtain es0 where n0: "log (run walk never_set self) = es0 @ [Finished]"
    and c: "(log (run walk stop self) = es0 @ [Finished]
          \<and> (\<forall>i < length (read_values es0). \<not> stop i))
        \<or> (\<exists>es rest. log (run walk stop self) = es @ [IsSet True, Finished] \<and> clean es
              \<and> es0 = es @ IsSet False # rest
              \<and> stop (length (read_values es))
              \<and> (\<forall>i < length (read_values es). \<not> stop i))"
    by blast
  from c show ?thesis
  proof
    assume "log (run walk stop self) = es0 @ [Finished]
          \<and> (\<forall>i < length (read_values es0). \<not> stop i)"
    then show ?thesis by (simp add: n0)
  next
    assume "\<exists>es rest. log (run walk stop self) = es @ [IsSet True, Finished] \<and> clean es
              \<and> es0 = es @ IsSet False # rest
              \<and> stop (length (read_values es))
              \<and> (\<forall>i < length (read_values es). \<not> stop i)"
    then obtain es rest where r: "es0 = es @ IsSet False # rest"
      and s: "stop (length (read_values es))"
      by blast
    have "length (read_values es) < length (read_values (log (run walk never_set self)))"
      by (simp add: n0 r)
    with assms s have False by blast
    then show ?thesis ..
  qed
qed

lemma result_list_deliver: "result_list (deliver es self) = result_list self @ found_paths es"
  unfolding deliver_def
proof (induction es arbitrary: self)
  case Nil
  show ?case by simp
next
  case (Cons e es)
  show ?case
    by (cases e) (simp_all add: Cons.IH on_found_def on_progress_def on_finished_def)
qed

subsection \<open>The walk of a tree\<close>

lemma join_sl: "a \<noteq> [] \<Longrightarrow> plain b \<Longrightarrow> join a b = sl a @ b"
  by (cases b) (auto simp: join_def sl_def startswith_def plain_def)

lemma plain_last: "plain n \<Longrightarrow> last n \<noteq> CHR ''/''"
  by (metis last_in_set plain_def)

lemma sl_plain_not_slash: "plain n \<Longrightarrow> b @ n \<noteq> [] \<and> last (b @ n) \<noteq> CHR ''/''"
  using plain_last [of n] by (simp add: plain_def)

lemma sl_no_slash: "q \<noteq> [] \<Longrightarrow> last q \<noteq> CHR ''/'' \<Longrightarrow> sl q = q @ ''/''"
  by (simp add: sl_def)

lemma comp1_under:
  assumes "CHR ''/'' \<notin> set n" "under (b @ n) p"
  shows "comp1 b p = n"
proof -
  from assms(2) obtain s where p: "p = b @ n @ s" and s: "s = [] \<or> hd s = CHR ''/''"
    unfolding under_def by auto
  have "takeWhile (\<lambda>c. c \<noteq> CHR ''/'') s = []"
    using s by (cases s) auto
  moreover have "takeWhile (\<lambda>c. c \<noteq> CHR ''/'') (n @ s) = n @ takeWhile (\<lambda>c. c \<noteq> CHR ''/'') s"
    by (rule takeWhile_append2) (use assms(1) in auto)
  ultimately show ?thesis
    by (simp add: comp1_def p)
qed

lemma under_refl: "under q q"
  by (simp add: under_def)

lemma under_child: "under (q @ ''/'' @ n) p \<Longrightarrow> under q p"
  unfolding under_def by auto

lemma emitted_Dir:
  "emitted k tp (Dir n cs) =
     (if str_in k (lower (basename tp)) then [tp] else [])
     @ map (join tp) (filter (\<lambda>f. str_in k (lower f)) (map node_name (filter (\<lambda>c. \<not> is_dir c) cs)))
     @ concat (map (\<lambda>c. emitted k (join tp (node_name c)) c) (filter is_dir cs))"
proof -
  have "concat (map (dir_matches k) (concat xss)) = concat (map (\<lambda>xs. concat (map (dir_matches k) xs)) xss)"
    for xss
    by (induction xss) simp_all
  then show ?thesis
    by (simp add: emitted_def dir_matches_def comp_def)
qed

lemma emitted_other [simp]: "emitted k tp (File n) = []" "emitted k tp (Skipped n) = []"
  by (simp_all add: emitted_def)

lemma emitted_under:
  "q \<noteq> [] \<Longrightarrow> last q \<noteq> CHR ''/'' \<Longrightarrow> well_formed t \<Longrightarrow> p \<in> set (emitted k q t) \<Longrightarrow> under q p"
proof (induction q t arbitrary: p rule: os_walk.induct)
  case (1 q n cs)
  have slq: "sl q = q @ ''/''" using "1.prems"(1,2) by (rule sl_no_slash)
  have names: "plain (node_name c)" if "c \<in> set cs" for c
    using "1.prems"(3) that by (simp add: plain_def)
  from "1.prems"(4) consider
      (a) "p = q"
    | (b) f where "f \<in> node_name ` set cs" "p = join q f"
    | (c) c where "c \<in> set (filter is_dir cs)" "p \<in> set (emitted k (join q (node_name c)) c)"
    unfolding emitted_Dir by (auto split: if_splits)
  then show ?case
  proof cases
    case a
    then show ?thesis by (simp add: under_refl)
  next
    case b
    then obtain c where "c \<in> set cs" "f = node_name c" by auto
    then have "join q f = q @ ''/'' @ f"
      using join_sl [OF "1.prems"(1) names] slq by simp
    then show ?thesis
      using b by (auto simp: under_def)
  next
    case c
    then have c: "c \<in> set cs" by simp
    have j: "join q (node_name c) = q @ ''/'' @ node_name c"
      using join_sl [OF "1.prems"(1) names [OF c]] slq by simp
    have ne: "join q (node_name c) \<noteq> []" "last (join q (node_name c)) \<noteq> CHR ''/''"
      using sl_plain_not_slash [OF names [OF c], of "q @ ''/''"] unfolding j by simp_all
    have wf: "well_formed c" using "1.prems"(3) c by simp
    from "1.IH" [OF \<open>c \<in> set (filter is_dir cs)\<close> ne wf \<open>p \<in> set (emitted k (join q (node_name c)) c)\<close>]
    show ?thesis unfolding j by (rule under_child)
  qed
qed simp_all

lemma distinct_labelled:
  assumes "distinct (map lab xs)"
    and "\<And>x. x \<in> set xs \<Longrightarrow> distinct (g x)"
    and "\<And>x p. x \<in> set xs \<Longrightarrow> p \<in> set (g x) \<Longrightarrow> h p = lab x"
  shows "distinct (concat (map g xs))"
  using assms
proof (induction xs)
  case Nil
  show ?case by simp
next
  case (Cons x xs)
  have "set (g x) \<inter> set (concat (map g xs)) = {}"
  proof (rule ccontr)
    assume "set (g x) \<inter> set (concat (map g xs)) \<noteq> {}"
    then obtain p y where p: "p \<in> set (g x)" and y: "y \<in> set xs" and py: "p \<in> set (g y)"
      by auto
    have "lab x = h p" using Cons.prems(3) [of x p] p by simp
    also have "h p = lab y" using Cons.prems(3) [of y p] y py by simp
    finally have "lab x \<in> lab ` set xs" using y by simp
    then show False using Cons.prems(1) by simp
  qed
  moreover have "distinct (concat (map g xs))"
    using Cons.prems by (intro Cons.IH) auto
  moreover have "distinct (g x)"
    using Cons.prems(2) by simp
  ultimately show ?case by simp
qed

lemma sl_longer: "x \<noteq> [] \<Longrightarrow> sl tp @ x \<noteq> tp"
  by (simp add: sl_def)

lemma under_sl: "plain n \<Longrightarrow> under (sl tp @ n) p \<Longrightarrow> p \<noteq> tp"
  unfolding under_def using sl_longer [of _ tp] by (auto simp: plain_def)

lemma emitted_distinct:
  "tp \<noteq> [] \<Longrightarrow> well_formed t \<Longrightarrow> distinct (emitted k tp t)"
proof (induction tp t rule: os_walk.induct)
  case (1 tp n cs)
  let ?b = "sl tp"
  let ?files = "filter (\<lambda>f. str_in k (lower f)) (map node_name (filter (\<lambda>c. \<not> is_dir c) cs))"
  let ?dirs = "filter is_dir cs"
  let ?A = "if str_in k (lower (basename tp)) then [tp] else []"
  let ?B = "map (join tp) ?files"
  let ?C = "concat (map (\<lambda>c. emitted k (join tp (node_name c)) c) ?dirs)"
  have names: "plain (node_name c)" if "c \<in> set cs" for c
    using "1.prems"(2) that by (simp add: plain_def)
  have dn: "distinct (map node_name cs)"
    using "1.prems"(2) by simp
  have j: "join tp (node_name c) = ?b @ node_name c" if "c \<in> set cs" for c
    using join_sl [OF "1.prems"(1) names [OF that]] .
  have B_form: "\<exists>c. c \<in> set cs \<and> \<not> is_dir c \<and> p = ?b @ node_name c" if "p \<in> set ?B" for p
  proof -
    from that obtain f where f: "f \<in> set ?files" and p: "p = join tp f"
      unfolding set_map by blast
    from f obtain c where c: "c \<in> set cs" "\<not> is_dir c" "f = node_name c"
      unfolding set_filter set_map by blast
    show ?thesis using c p j [OF c(1)] by blast
  qed
  have C_form: "\<exists>c. c \<in> set cs \<and> is_dir c \<and> under (?b @ node_name c) p" if "p \<in> set ?C" for p
  proof -
    from that obtain c where c: "c \<in> set cs" "is_dir c"
      and p: "p \<in> set (emitted k (join tp (node_name c)) c)"
      unfolding set_concat set_map set_filter by blast
    have wf: "well_formed c" using "1.prems"(2) c(1) by simp
    have "under (join tp (node_name c)) p"
      using sl_plain_not_slash [OF names [OF c(1)], of ?b] wf p
      unfolding j [OF c(1)] by (intro emitted_under) simp_all
    then show ?thesis using c j [OF c(1)] by metis
  qed
  have dB: "distinct ?B"
  proof -
    have "distinct (map node_name (filter (\<lambda>c. \<not> is_dir c) cs))"
      using dn by (rule distinct_map_filter)
    then have "distinct ?files" by simp
    moreover have "inj_on (join tp) (set ?files)"
    proof (rule inj_onI)
      fix f g assume f: "f \<in> set ?files" and g: "g \<in> set ?files" and e: "join tp f = join tp g"
      from f obtain c where c: "c \<in> set cs" "f = node_name c"
        unfolding set_filter set_map by blast
      from g obtain d where d: "d \<in> set cs" "g = node_name d"
        unfolding set_filter set_map by blast
      have "?b @ f = ?b @ g"
        using e j [OF c(1)] j [OF d(1)] c(2) d(2) by simp
      then show "f = g" by simp
    qed
    ultimately show ?thesis by (simp add: distinct_map)
  qed
  have dC: "distinct ?C"
  proof (rule distinct_labelled [where lab = node_name and h = "comp1 ?b"])
    show "distinct (map node_name ?dirs)"
      using dn by (rule distinct_map_filter)
  next
    fix c assume c: "c \<in> set ?dirs"
    then have c': "c \<in> set cs" by simp
    have "well_formed c" using "1.prems"(2) c' by simp
    moreover have "join tp (node_name c) \<noteq> []"
      using names [OF c'] unfolding j [OF c'] by (simp add: plain_def)
    ultimately show "distinct (emitted k (join tp (node_name c)) c)"
      using "1.IH" [OF c] by simp
  next
    fix c p assume c: "c \<in> set ?dirs" and p: "p \<in> set (emitted k (join tp (node_name c)) c)"
    then have c': "c \<in> set cs" by simp
    have wf: "well_formed c" using "1.prems"(2) c' by simp
    have "under (join tp (node_name c)) p"
      using sl_plain_not_slash [OF names [OF c'], of ?b] wf p
      unfolding j [OF c'] by (intro emitted_under) simp_all
    then show "comp1 ?b p = node_name c"
      unfolding j [OF c'] using names [OF c'] by (intro comp1_under) (simp_all add: plain_def)
  qed
  have AB: "set ?A \<inter> set ?B = {}"
  proof -
    have "p \<noteq> tp" if "p \<in> set ?B" for p
    proof -
      from B_form [OF that] obtain c where c: "c \<in> set cs" "p = ?b @ node_name c"
        by blast
      have "node_name c \<noteq> []" using names [OF c(1)] by (simp add: plain_def)
      then show ?thesis unfolding c(2) by (rule sl_longer)
    qed
    then show ?thesis by (cases "str_in k (lower (basename tp))") auto
  qed
  have AC: "set ?A \<inter> set ?C = {}"
  proof -
    have "p \<noteq> tp" if "p \<in> set ?C" for p
    proof -
      from C_form [OF that] obtain c where c: "c \<in> set cs" "under (?b @ node_name c) p"
        by blast
      show ?thesis using names [OF c(1)] c(2) by (rule under_sl)
    qed
    then show ?thesis by (cases "str_in k (lower (basename tp))") auto
  qed
  have BC: "set ?B \<inter> set ?C = {}"
  proof (rule ccontr)
    assume "set ?B \<inter> set ?C \<noteq> {}"
    then obtain p where pB: "p \<in> set ?B" and pC: "p \<in> set ?C" by blast
    from B_form [OF pB] obtain c where c: "c \<in> set cs" "\<not> is_dir c" "p = ?b @ node_name c"
      by blast
    from C_form [OF pC] obtain d where d: "d \<in> set cs" "is_dir d" "under (?b @ node_name d) p"
      by blast
    have "under (?b @ node_name c) p" using c(3) by (simp add: under_refl)
    then have "comp1 ?b p = node_name c"
      using names [OF c(1)] by (intro comp1_under) (simp_all add: plain_def)
    moreover have "comp1 ?b p = node_name d"
      using d(3) names [OF d(1)] by (intro comp1_under) (simp_all add: plain_def)
    ultimately have "node_name c = node_name d" by simp
    then have "c = d"
      using dn c(1) d(1) unfolding distinct_map inj_on_def by blast
    then show False using c(2) d(2) by simp
  qed
  have dA: "distinct ?A" by simp
  have "distinct (?A @ ?B @ ?C)"
    unfolding distinct_append set_append Int_Un_distrib
    using dA dB dC AB AC BC by blast
  then show ?case unfolding emitted_Dir .
qed simp_all

lemma sl_snoc: "\<exists>x. sl tp = x @ ''/''"
proof (cases "tp \<noteq> [] \<and> last tp = CHR ''/''")
  case True
  then have "tp = butlast tp @ ''/''"
    using append_butlast_last_id [of tp] by simp
  then show ?thesis using True unfolding sl_def by metis
next
  case False
  then show ?thesis by (auto simp: sl_def)
qed

lemma basename_join:
  assumes "tp \<noteq> []" "plain n"
  shows "basename (join tp n) = n"
proof -
  obtain x where x: "sl tp = x @ ''/''" using sl_snoc by blast
  have "takeWhile (\<lambda>c. c \<noteq> CHR ''/'') (rev n @ CHR ''/'' # rev x)
          = rev n @ takeWhile (\<lambda>c. c \<noteq> CHR ''/'') (CHR ''/'' # rev x)"
    by (rule takeWhile_append2) (use assms(2) in \<open>auto simp: plain_def\<close>)
  then have "takeWhile (\<lambda>c. c \<noteq> CHR ''/'') (rev n @ CHR ''/'' # rev x) = rev n"
    by simp
  then show ?thesis
    unfolding join_sl [OF assms] x basename_def by simp
qed

lemma emitted_prefix:
  assumes "tp \<noteq> []" "well_formed t" "p \<in> set (emitted k tp t)"
  shows "prefix (sl tp) (p @ ''/'')"
proof (cases t)
  case (Dir n cs)
  have names: "plain (node_name c)" if "c \<in> set cs" for c
    using assms(2) that unfolding Dir by (simp add: plain_def)
  from assms(3) consider
      (a) "p = tp"
    | (b) c where "c \<in> set cs" "p = join tp (node_name c)"
    | (c) c where "c \<in> set cs" "is_dir c" "p \<in> set (emitted k (join tp (node_name c)) c)"
    unfolding Dir emitted_Dir by (auto split: if_splits)
  then show ?thesis
  proof cases
    case a
    then show ?thesis by (simp add: sl_def)
  next
    case b
    then show ?thesis using join_sl [OF assms(1) names [OF b(1)]] by simp
  next
    case c
    have wf: "well_formed c" using assms(2) c(1) unfolding Dir by simp
    have j: "join tp (node_name c) = sl tp @ node_name c"
      using join_sl [OF assms(1) names [OF c(1)]] .
    have "under (join tp (node_name c)) p"
      using sl_plain_not_slash [OF names [OF c(1)], of "sl tp"] wf c(3)
      unfolding j by (intro emitted_under) simp_all
    then show ?thesis unfolding j under_def by auto
  qed
qed (use assms in simp_all)

lemma tree_matches_Dir:
  "tree_matches k tp (Dir n cs) =
     (if contains_ci (basename tp) k then [tp] else [])
     @ concat (map (\<lambda>c. tree_matches k (join tp (node_name c)) c) cs)"
proof -
  have "map fst (filter P (concat xss)) = concat (map (\<lambda>xs. map fst (filter P xs)) xss)"
    for P :: "string \<times> node \<Rightarrow> bool" and xss
    by (induction xss) simp_all
  then show ?thesis
    by (simp add: tree_matches_def is_match_def comp_def)
qed

lemma tree_matches_File:
  "tree_matches k p (File n) = (if contains_ci (basename p) k then [p] else [])"
  by (simp add: tree_matches_def is_match_def)

lemma tree_matches_Skipped: "tree_matches k p (Skipped n) = []"
  by (simp add: tree_matches_def is_match_def)

lemma emitted_set:
  "tp \<noteq> [] \<Longrightarrow> well_formed t \<Longrightarrow> is_dir t \<Longrightarrow>
     set (emitted (lower k) tp t) = set (tree_matches k tp t)"
proof (induction tp t rule: os_walk.induct)
  case (1 tp n cs)
  let ?g = "\<lambda>c. emitted (lower k) (join tp (node_name c)) c"
  let ?h = "\<lambda>c. tree_matches k (join tp (node_name c)) c"
  let ?A = "if contains_ci (basename tp) k then [tp] else []"
  let ?B = "map (join tp) (filter (\<lambda>f. str_in (lower k) (lower f))
              (map node_name (filter (\<lambda>c. \<not> is_dir c) cs)))"
  have names: "plain (node_name c)" if "c \<in> set cs" for c
    using "1.prems"(2) that by (simp add: plain_def)
  have dirs: "set (?g c) = set (?h c)" if c: "c \<in> set cs" "is_dir c" for c
  proof -
    have "join tp (node_name c) \<noteq> []"
      using sl_plain_not_slash [OF names [OF c(1)], of "sl tp"]
      unfolding join_sl [OF "1.prems"(1) names [OF c(1)]] by simp
    moreover have "well_formed c" using "1.prems"(2) c(1) by simp
    ultimately show ?thesis using "1.IH" [of c] c by simp
  qed
  have files: "set (?h c) = (if contains_ci (node_name c) k then {join tp (node_name c)} else {})"
    if c: "c \<in> set cs" "\<not> is_dir c" for c
  proof -
    obtain m where m: "c = File m" using c(2) by (cases c) simp_all
    show ?thesis
      using basename_join [OF "1.prems"(1) names [OF c(1)]]
      by (simp add: m tree_matches_File)
  qed
  have B: "set ?B = {p. \<exists>c. c \<in> set cs \<and> \<not> is_dir c \<and> contains_ci (node_name c) k
                       \<and> p = join tp (node_name c)}"
    unfolding set_map set_filter contains_ci_lower by blast
  have e: "set (emitted (lower k) tp (Dir n cs))
             = set ?A \<union> set ?B \<union> (\<Union>c \<in> {c \<in> set cs. is_dir c}. set (?g c))"
    unfolding emitted_Dir by (simp add: contains_ci_lower Un_assoc)
  have t: "set (tree_matches k tp (Dir n cs)) = set ?A \<union> (\<Union>c \<in> set cs. set (?h c))"
    unfolding tree_matches_Dir by simp
  have "(\<Union>c \<in> set cs. set (?h c))
          = set ?B \<union> (\<Union>c \<in> {c \<in> set cs. is_dir c}. set (?g c))"
  proof (rule set_eqI)
    fix p
    show "p \<in> (\<Union>c \<in> set cs. set (?h c))
          \<longleftrightarrow> p \<in> set ?B \<union> (\<Union>c \<in> {c \<in> set cs. is_dir c}. set (?g c))"
    proof
      assume "p \<in> (\<Union>c \<in> set cs. set (?h c))"
      then obtain c where c: "c \<in> set cs" "p \<in> set (?h c)" by blast
      show "p \<in> set ?B \<union> (\<Union>c \<in> {c \<in> set cs. is_dir c}. set (?g c))"
      proof (cases "is_dir c")
        case True
        then show ?thesis using c dirs [OF c(1) True] by blast
      next
        case False
        then have "contains_ci (node_name c) k \<and> p = join tp (node_name c)"
          using c(2) files [OF c(1) False] by (auto split: if_splits)
        then show ?thesis unfolding B using c(1) False by blast
      qed
    next
      assume "p \<in> set ?B \<union> (\<Union>c \<in> {c \<in> set cs. is_dir c}. set (?g c))"
      then consider (b) "p \<in> set ?B" | (c) c where "c \<in> set cs" "is_dir c" "p \<in> set (?g c)"
        by blast
      then show "p \<in> (\<Union>c \<in> set cs. set (?h c))"
      proof cases
        case b
        then obtain c where c: "c \<in> set cs" "\<not> is_dir c" "contains_ci (node_name c) k"
          "p = join tp (node_name c)"
          unfolding B by blast
        then have "p \<in> set (?h c)" using files [OF c(1,2)] by simp
        then show ?thesis using c(1) by blast
      next
        case c
        then show ?thesis using dirs [OF c(1,2)] by blast
      qed
    qed
  qed
  then show ?case unfolding e t by (simp add: Un_assoc)
qed (simp_all add: tree_matches_Skipped)

lemma emitted_apart:
  assumes "apart r q" "r \<noteq> []" "q \<noteq> []" "well_formed t" "well_formed u"
  shows "set (emitted k r t) \<inter> set (emitted k q u) = {}"
proof (rule ccontr)
  assume "set (emitted k r t) \<inter> set (emitted k q u) \<noteq> {}"
  then obtain p where "p \<in> set (emitted k r t)" "p \<in> set (emitted k q u)" by blast
  then have "prefix (sl r) (p @ ''/'')" "prefix (sl q) (p @ ''/'')"
    using assms emitted_prefix by blast+
  then have "prefix (sl r) (sl q) \<or> prefix (sl q) (sl r)"
    by (rule prefix_same_cases)
  then show False using assms(1) by (simp add: apart_def)
qed

lemma root_found_cases:
  "root_found fs k r = (case fs r of None \<Rightarrow> [] | Some t \<Rightarrow> emitted k r t)"
  by (simp add: root_found_def walk_fs_def emitted_def split: option.splits)

lemma roots_found_distinct:
  "roots_apart rs \<Longrightarrow> \<forall>r \<in> set rs. root_ok fs r \<Longrightarrow>
     distinct (concat (map (root_found fs k) rs))"
proof (induction rs)
  case Nil
  show ?case by simp
next
  case (Cons r rs)
  have ok: "root_ok fs r" using Cons.prems(2) by simp
  have d: "distinct (root_found fs k r)"
    using ok emitted_distinct [of r _ k]
    by (auto simp: root_found_cases root_ok_def split: option.splits)
  have "set (root_found fs k r) \<inter> set (root_found fs k q) = {}" if q: "q \<in> set rs" for q
  proof -
    have a: "apart r q" using Cons.prems(1) q by simp
    have okq: "root_ok fs q" using Cons.prems(2) q by simp
    show ?thesis
    proof (cases "fs r")
      case None
      then show ?thesis by (simp add: root_found_cases)
    next
      case (Some t)
      show ?thesis
      proof (cases "fs q")
        case None
        then show ?thesis by (simp add: root_found_cases)
      next
        case Some2: (Some u)
        have "set (emitted k r t) \<inter> set (emitted k q u) = {}"
          using a ok okq Some Some2 by (intro emitted_apart) (simp_all add: root_ok_def)
        then show ?thesis by (simp add: root_found_cases Some Some2)
      qed
    qed
  qed
  then have "set (root_found fs k r) \<inter> set (concat (map (root_found fs k) rs)) = {}"
    by auto
  moreover have "distinct (concat (map (root_found fs k) rs))"
    using Cons.prems by (intro Cons.IH) simp_all
  ultimately show ?case using d by simp
qed

lemma root_found_set:
  assumes "root_ok fs r"
  shows "set (root_found fs (lower k) r) = set (fs_matches fs k r)"
proof (cases "fs r")
  case None
  then show ?thesis by (simp add: root_found_cases fs_matches_def)
next
  case (Some t)
  then have "r \<noteq> []" "well_formed t" "is_dir t"
    using assms by (simp_all add: root_ok_def)
  then have "set (emitted (lower k) r t) = set (tree_matches k r t)"
    by (intro emitted_set)
  then show ?thesis by (simp add: root_found_cases fs_matches_def Some)
qed

lemma run_signals_shape:
  "\<exists>es. signals (log (run walk stop self)) = es @ [Finished] \<and> Finished \<notin> set es"
proof -
  from run_shape [of walk self stop]
  obtain es0 where "clean es0" and
    c: "log (run walk stop self) = es0 @ [Finished]
        \<or> (\<exists>es. log (run walk stop self) = es @ [IsSet True, Finished] \<and> clean es \<and> prefix es es0)"
    by blast
  from c show ?thesis
  proof
    assume l: "log (run walk stop self) = es0 @ [Finished]"
    have "Finished \<notin> set (signals es0)"
      using \<open>clean es0\<close> set_signals [of es0] by (auto simp: clean_def)
    then show ?thesis by (simp add: l)
  next
    assume "\<exists>es. log (run walk stop self) = es @ [IsSet True, Finished] \<and> clean es \<and> prefix es es0"
    then obtain es where l: "log (run walk stop self) = es @ [IsSet True, Finished]" and "clean es"
      by blast
    have "Finished \<notin> set (signals es)"
      using \<open>clean es\<close> set_signals [of es] by (auto simp: clean_def)
    then show ?thesis by (simp add: l)
  qed
qed

text \<open>
  Claim C3. Every run, for every file system, every list of roots, every keyword and every
  behaviour of the cancellation flag (never set, or set at any read), emits the completion
  signal exactly once, and that signal is the last signal of the run.
\<close>

theorem run_finished_once:
  "signals (log (run walk stop self)) \<noteq> []
   \<and> last (signals (log (run walk stop self))) = Finished
   \<and> count_list (signals (log (run walk stop self))) Finished = 1"
proof -
  from run_signals_shape [of walk stop self]
  obtain es where "signals (log (run walk stop self)) = es @ [Finished]" "Finished \<notin> set es"
    by blast
  then show ?thesis
    by (simp add: count_list_0)
qed

text \<open>
  Claim C2. In every run, whatever the cancellation flag does: (a) exactly one completion
  signal is emitted. The flag is read at a checkpoint before every visited directory and
  before every file: the number of reads in the log of the run that is not cancelled is
  the sum over the visited directories of one plus the number of their files, and (for a
  keyword and names of ASCII text) that log is, apart from the progress signals and
  directory by directory, a read of the flag, the match of the directory if it matches
  and, for each file, a read of the flag and the match of the file if it matches. (b) A flag that is first seen set at the checkpoint number \<open>n\<close> of
  that sequence stops the run there: the log is the log of the uncancelled run before
  that read, then the read that saw the flag set, then the completion signal, with no
  match and no progress signal after the read; a flag that is set only after the last
  checkpoint changes nothing. (c) What was emitted before the read that saw the flag set,
  \<open>pre\<close>, is kept: it is an initial piece of the log of the uncancelled run, it contains no
  earlier completion signal, the matches of the whole run are exactly the matches in
  \<open>pre\<close>, and once the signals of the run have reached the window its result list is what
  it was before, followed by those matches.
\<close>

theorem run_cancelled:
  "count_list (signals (log (run walk stop self))) Finished = 1
   \<and> (ascii (keyword self) \<and> ascii_walk walk (roots self) \<longrightarrow>
        without_progress (log (run walk never_set self))
          = concat (map (visit_events (keyword self)) (all_entries walk (roots self))) @ [Finished])
   \<and> length (read_values (log (run walk never_set self)))
       = sum_list (map checkpoints (all_entries walk (roots self)))
   \<and> reads (run walk never_set self) = sum_list (map checkpoints (all_entries walk (roots self)))
   \<and> ((\<forall>i<n. \<not> stop i) \<and> stop n \<and> n < length (read_values (log (run walk never_set self))) \<longrightarrow>
        log (run walk stop self)
          = before_read n (log (run walk never_set self)) @ [IsSet True, Finished])
   \<and> ((\<forall>i < length (read_values (log (run walk never_set self))). \<not> stop i) \<longrightarrow>
        log (run walk stop self) = log (run walk never_set self))
   \<and> (log (run walk stop self) = pre @ IsSet True # post \<longrightarrow>
        post = [Finished] \<and> IsSet True \<notin> set pre \<and> Finished \<notin> set pre
        \<and> prefix pre (log (run walk never_set self))
        \<and> found_paths (log (run walk stop self)) = found_paths pre
        \<and> result_list (deliver (log (run walk stop self)) window)
            = result_list window @ found_paths pre)"
proof (intro conjI impI)
  from run_signals_shape [of walk stop self]
  obtain es where "signals (log (run walk stop self)) = es @ [Finished]" "Finished \<notin> set es"
    by blast
  then show "count_list (signals (log (run walk stop self))) Finished = 1"
    by (simp add: count_list_0)
next
  show "without_progress (log (run walk never_set self))
          = concat (map (visit_events (keyword self)) (all_entries walk (roots self))) @ [Finished]"
    by (rule run_never_shape)
next
  let ?i = "\<lparr>total_n = 0, reads = 0, log = []\<rparr>"
  from run_shape [of walk self stop]
  obtain w0 where n: "for_root walk never_set (keyword self) (roots self) ?i = Running w0"
    by blast
  from for_root_effect [OF n]
  show r: "reads (run walk never_set self) = sum_list (map checkpoints (all_entries walk (roots self)))"
    by (simp add: run_def n emit_def effect_def)
  show "length (read_values (log (run walk never_set self)))
       = sum_list (map checkpoints (all_entries walk (roots self)))"
    unfolding run_reads_logged r ..
next
  assume "(\<forall>i<n. \<not> stop i) \<and> stop n \<and> n < length (read_values (log (run walk never_set self)))"
  then show "log (run walk stop self)
          = before_read n (log (run walk never_set self)) @ [IsSet True, Finished]"
    by (intro run_first_set) simp_all
next
  assume "\<forall>i < length (read_values (log (run walk never_set self))). \<not> stop i"
  then show "log (run walk stop self) = log (run walk never_set self)"
    by (rule run_not_noticed)
next
  assume l: "log (run walk stop self) = pre @ IsSet True # post"
  from run_shape [of walk self stop]
  obtain es0 where cl: "clean es0" and rn: "log (run walk never_set self) = es0 @ [Finished]" and
    c: "log (run walk stop self) = es0 @ [Finished]
        \<or> (\<exists>es. log (run walk stop self) = es @ [IsSet True, Finished] \<and> clean es \<and> prefix es es0
              \<and> prefix (es @ [IsSet False]) es0)"
    by blast
  have "IsSet True \<in> set (log (run walk stop self))"
    by (simp add: l)
  with c cl obtain es where l2: "log (run walk stop self) = es @ [IsSet True, Finished]"
    and ces: "clean es" and p: "prefix es es0"
    by (auto simp: clean_def)
  have "pre = es \<and> post = [Finished]"
    using l l2 ces unique_split [of pre "IsSet True" post es Finished] by (simp add: clean_def)
  then have pre: "pre = es" and post: "post = [Finished]" by simp_all
  show "post = [Finished]" by (rule post)
  show "IsSet True \<notin> set pre" "Finished \<notin> set pre"
    using ces pre by (simp_all add: clean_def)
  show "prefix pre (log (run walk never_set self))"
    using p pre rn by (auto simp: prefix_def)
  show f: "found_paths (log (run walk stop self)) = found_paths pre"
    by (simp add: l post)
  show "result_list (deliver (log (run walk stop self)) window) = result_list window @ found_paths pre"
    unfolding result_list_deliver f ..
qed

theorem run_cancelled_witness:
  "log (run (walk_fs test_fs) never_set (SearchWorker [''/tmp/testroot''] ''foo''))
     = [IsSet False, IsSet False, Found ''/tmp/testroot/Foo'', IsSet False, IsSet False,
        IsSet False, Found ''/tmp/testroot/baz/FooBar.log'', Finished]
   \<and> without_progress (log (run (walk_fs test_fs) never_set (SearchWorker [''/tmp/testroot''] ''foo'')))
     = concat (map (visit_events ''foo'') (all_entries (walk_fs test_fs) [''/tmp/testroot''])) @ [Finished]
   \<and> log (run (walk_fs test_fs) (set_from 4) (SearchWorker [''/tmp/testroot''] ''foo''))
     = [IsSet False, IsSet False, Found ''/tmp/testroot/Foo'', IsSet False, IsSet False,
        IsSet True, Finished]
   \<and> log (run (walk_fs test_fs) (set_from 4) (SearchWorker [''/tmp/testroot''] ''foo''))
     = before_read 4 (log (run (walk_fs test_fs) never_set (SearchWorker [''/tmp/testroot''] ''foo'')))
       @ [IsSet True, Finished]
   \<and> log (run (walk_fs test_fs) (set_from 5) (SearchWorker [''/tmp/testroot''] ''foo''))
     = log (run (walk_fs test_fs) never_set (SearchWorker [''/tmp/testroot''] ''foo''))
   \<and> found_paths (log (run (walk_fs test_fs) (set_from 4) (SearchWorker [''/tmp/testroot''] ''foo'')))
     = [''/tmp/testroot/Foo'']
   \<and> result_list (deliver (log (run (walk_fs test_fs) (set_from 4)
         (SearchWorker [''/tmp/testroot''] ''foo''))) MainWindow)
     = [''/tmp/testroot/Foo'']"
proof -
  let ?self = "SearchWorker [''/tmp/testroot''] ''foo''"
  let ?pre = "[IsSet False, IsSet False, Found ''/tmp/testroot/Foo'', IsSet False, IsSet False]"
  have u: "log (run (walk_fs test_fs) never_set ?self)
     = [IsSet False, IsSet False, Found ''/tmp/testroot/Foo'', IsSet False, IsSet False,
        IsSet False, Found ''/tmp/testroot/baz/FooBar.log'', Finished]"
    by code_simp
  have l: "log (run (walk_fs test_fs) (set_from 4) ?self) = ?pre @ IsSet True # [Finished]"
    by code_simp
  have n: "length (read_values (log (run (walk_fs test_fs) never_set ?self))) = 5"
    unfolding u by simp
  have h4: "(\<forall>i<4. \<not> set_from 4 i) \<and> set_from 4 4
              \<and> 4 < length (read_values (log (run (walk_fs test_fs) never_set ?self)))"
    unfolding n by (simp add: set_from_def)
  have h5: "\<forall>i < length (read_values (log (run (walk_fs test_fs) never_set ?self))). \<not> set_from 5 i"
    unfolding n by (simp add: set_from_def)
  have k: "keyword ?self = ''foo''"
    by code_simp
  have ha: "ascii (keyword ?self) \<and> ascii_walk (walk_fs test_fs) (roots ?self)"
    by code_simp
  from run_cancelled [of "walk_fs test_fs" "set_from 4" ?self 4 ?pre "[Finished]" MainWindow] ha
  have w: "without_progress (log (run (walk_fs test_fs) never_set ?self))
     = concat (map (visit_events ''foo'') (all_entries (walk_fs test_fs) [''/tmp/testroot''])) @ [Finished]"
    unfolding k by (simp add: SearchWorker_def)
  from run_cancelled [of "walk_fs test_fs" "set_from 4" ?self 4 ?pre "[Finished]" MainWindow] h4 l
  have a: "log (run (walk_fs test_fs) (set_from 4) ?self)
             = before_read 4 (log (run (walk_fs test_fs) never_set ?self)) @ [IsSet True, Finished]"
    and f: "found_paths (log (run (walk_fs test_fs) (set_from 4) ?self)) = found_paths ?pre"
    and r: "result_list (deliver (log (run (walk_fs test_fs) (set_from 4) ?self)) MainWindow)
             = result_list MainWindow @ found_paths ?pre"
    by blast+
  from run_cancelled [of "walk_fs test_fs" "set_from 5" ?self 0 "[]" "[]" MainWindow] h5
  have b: "log (run (walk_fs test_fs) (set_from 5) ?self) = log (run (walk_fs test_fs) never_set ?self)"
    by blast
  have f': "found_paths (log (run (walk_fs test_fs) (set_from 4) ?self)) = [''/tmp/testroot/Foo'']"
    unfolding f by simp
  have r': "result_list (deliver (log (run (walk_fs test_fs) (set_from 4) ?self)) MainWindow)
             = [''/tmp/testroot/Foo'']"
    unfolding r by (simp add: MainWindow_def)
  have l': "log (run (walk_fs test_fs) (set_from 4) ?self)
     = [IsSet False, IsSet False, Found ''/tmp/testroot/Foo'', IsSet False, IsSet False,
        IsSet True, Finished]"
    unfolding l by simp
  from u w l' a b f' r' show ?thesis by blast
qed

text \<open>
  Claim C9. In every run the counter \<open>total\<close> and the progress signals agree: the values
  carried by the progress signals are, in order, 500, 1000, ... up to the largest multiple
  of 500 not above the final value of the counter, one signal for each positive multiple
  of 500 the counter reached; they are strictly increasing. The counter never exceeds the
  number of directories visited over all roots, and in a run that is not cancelled it ends
  equal to that number.
\<close>

theorem run_progress:
  "progress_values (log (run walk stop self))
     = map (\<lambda>i. 500 * i) [1..<Suc (total_n (run walk stop self) div 500)]
   \<and> sorted_wrt (<) (progress_values (log (run walk stop self)))
   \<and> total_n (run walk stop self) \<le> length (all_entries walk (roots self))
   \<and> total_n (run walk never_set self) = length (all_entries walk (roots self))"
proof -
  let ?i = "\<lparr>total_n = 0, reads = 0, log = []\<rparr>"
  let ?r = "for_root walk stop (keyword self) (roots self) ?i"
  have t: "tracks (length (all_entries walk (roots self))) ?i (state_of ?r)"
    by (rule for_root_tracks)
  have ok0: "progress_ok ?i" by (simp add: progress_ok_def)
  have rs: "progress_values (log (run walk stop self)) = progress_values (log (state_of ?r))"
    "total_n (run walk stop self) = total_n (state_of ?r)"
    by (cases ?r; simp add: run_def emit_def)+
  have p: "progress_values (log (run walk stop self))
     = map (\<lambda>i. 500 * i) [1..<Suc (total_n (run walk stop self) div 500)]"
    using t ok0 unfolding rs by (simp add: tracks_def progress_ok_def)
  have s: "sorted_wrt (<) (map (\<lambda>i. 500 * i) [1..<Suc n])" for n :: nat
  proof -
    have "sorted_wrt (\<lambda>x y. 500 * x < 500 * y) [1..<Suc n]"
      by (rule sorted_wrt_mono_rel [OF _ sorted_wrt_upt]) simp
    then show ?thesis by (simp only: sorted_wrt_map)
  qed
  have b: "total_n (run walk stop self) \<le> length (all_entries walk (roots self))"
    using t unfolding rs by (simp add: tracks_def)
  from run_shape [of walk self stop]
  obtain w0 where n: "for_root walk never_set (keyword self) (roots self) ?i = Running w0"
    by blast
  from for_root_effect [OF n]
  have e: "total_n (run walk never_set self) = length (all_entries walk (roots self))"
    by (simp add: run_def n emit_def effect_def)
  show ?thesis
    using p s b e by simp
qed

lemma matching_paths_eq: "matching_paths k e = dir_matches (lower k) e"
  by (simp add: matching_paths_def dir_matches_def contains_ci_lower split: prod.splits)

lemma uncancelled_found_entries:
  "found_paths (log (run walk never_set (SearchWorker rs k)))
     = concat (map (dir_matches (lower k)) (all_entries walk rs))"
proof -
  let ?i = "\<lparr>total_n = 0, reads = 0, log = []\<rparr>"
  let ?self = "SearchWorker rs k"
  from run_shape [of walk ?self never_set]
  obtain w0 where n: "for_root walk never_set (keyword ?self) (roots ?self) ?i = Running w0"
    by blast
  have n': "for_root walk never_set (lower k) rs ?i = Running w0"
    using n by (simp add: SearchWorker_def)
  from for_root_effect [OF n']
  show ?thesis
    by (simp add: run_def n' emit_def effect_def SearchWorker_def)
qed

lemma uncancelled_found_roots:
  "found_paths (log (run (walk_fs fs) never_set (SearchWorker rs k)))
     = concat (map (root_found fs (lower k)) rs)"
proof -
  have "concat (map f (concat xss)) = concat (map (\<lambda>xs. concat (map f xs)) xss)"
    for f :: "walk_entry \<Rightarrow> string list" and xss
    by (induction xss) simp_all
  then show ?thesis
    unfolding uncancelled_found_entries all_entries_def root_found_def by (simp add: comp_def)
qed

text \<open>
  Claim C1, as amended. For a keyword and names of ASCII text: a run that is not cancelled
  emits, root by root in the order of the list of roots and directory by directory in
  the order of the walk, the path of each directory that the walk enters whose base name
  contains the keyword case-insensitively, then the path of each file of that directory
  whose name contains the keyword case-insensitively, and no other match. When moreover no
  root is equal to another root or lies below one, and the roots denote well-formed
  directory trees, every file and every entered directory below the roots whose name
  contains the keyword case-insensitively is emitted exactly once, and nothing else is.
  Containment is the occurrence of the characters of the keyword, up to the case of the
  letters, one after the other in the name.
\<close>

theorem run_found:
  "(ascii k \<and> ascii_walk walk rs \<longrightarrow>
      found_paths (log (run walk never_set (SearchWorker rs k)))
        = concat (map (matching_paths k) (all_entries walk rs)))
   \<and> (ascii k \<and> ascii_walk (walk_fs fs) rs \<and> roots_apart rs \<and> (\<forall>r \<in> set rs. root_ok fs r) \<longrightarrow>
        distinct (found_paths (log (run (walk_fs fs) never_set (SearchWorker rs k))))
        \<and> set (found_paths (log (run (walk_fs fs) never_set (SearchWorker rs k))))
            = (\<Union>r \<in> set rs. set (fs_matches fs k r)))
   \<and> (contains_ci name k \<longleftrightarrow> (\<exists>ps ms ss. name = ps @ ms @ ss \<and> list_all2 same_letter k ms))"
proof (intro conjI impI)
  have m: "matching_paths k = dir_matches (lower k)"
    by (rule ext) (rule matching_paths_eq)
  show "found_paths (log (run walk never_set (SearchWorker rs k)))
     = concat (map (matching_paths k) (all_entries walk rs))"
    unfolding m by (rule uncancelled_found_entries)
next
  assume "ascii k \<and> ascii_walk (walk_fs fs) rs \<and> roots_apart rs \<and> (\<forall>r \<in> set rs. root_ok fs r)"
  then show "distinct (found_paths (log (run (walk_fs fs) never_set (SearchWorker rs k))))"
    unfolding uncancelled_found_roots by (intro roots_found_distinct) simp_all
next
  assume "ascii k \<and> ascii_walk (walk_fs fs) rs \<and> roots_apart rs \<and> (\<forall>r \<in> set rs. root_ok fs r)"
  then have "set (root_found fs (lower k) r) = set (fs_matches fs k r)" if "r \<in> set rs" for r
    using that root_found_set by blast
  then show "set (found_paths (log (run (walk_fs fs) never_set (SearchWorker rs k))))
            = (\<Union>r \<in> set rs. set (fs_matches fs k r))"
    unfolding uncancelled_found_roots by simp
next
  show "contains_ci name k \<longleftrightarrow> (\<exists>ps ms ss. name = ps @ ms @ ss \<and> list_all2 same_letter k ms)"
    by (rule contains_ci_iff)
qed

theorem run_found_witness:
  "found_paths (log (run (walk_fs test_fs) never_set (SearchWorker [''/tmp/testroot''] ''foo'')))
     = [''/tmp/testroot/Foo'', ''/tmp/testroot/baz/FooBar.log'']
   \<and> concat (map (matching_paths ''foo'') (all_entries (walk_fs test_fs) [''/tmp/testroot'']))
     = [''/tmp/testroot/Foo'', ''/tmp/testroot/baz/FooBar.log'']
   \<and> distinct (found_paths (log (run (walk_fs test_fs) never_set
         (SearchWorker [''/tmp/testroot''] ''foo''))))
   \<and> set (found_paths (log (run (walk_fs test_fs) never_set
         (SearchWorker [''/tmp/testroot''] ''foo''))))
       = set (fs_matches test_fs ''foo'' ''/tmp/testroot'')
   \<and> fs_matches test_fs ''foo'' ''/tmp/testroot''
     = [''/tmp/testroot/Foo'', ''/tmp/testroot/baz/FooBar.log'']"
proof -
  have k: "ascii ''foo''"
    by code_simp
  have w: "ascii_walk (walk_fs test_fs) [''/tmp/testroot'']"
    by code_simp
  have a: "roots_apart [''/tmp/testroot'']"
    by simp
  have ok: "\<forall>r \<in> set [''/tmp/testroot'']. root_ok test_fs r"
    by (simp add: root_ok_def test_fs_def)
  have v: "found_paths (log (run (walk_fs test_fs) never_set (SearchWorker [''/tmp/testroot''] ''foo'')))
     = [''/tmp/testroot/Foo'', ''/tmp/testroot/baz/FooBar.log'']"
    by code_simp
  have f: "fs_matches test_fs ''foo'' ''/tmp/testroot''
     = [''/tmp/testroot/Foo'', ''/tmp/testroot/baz/FooBar.log'']"
    by code_simp
  from run_found [of "''foo''" "walk_fs test_fs" "[''/tmp/testroot'']" test_fs] k w a ok
  have e: "found_paths (log (run (walk_fs test_fs) never_set (SearchWorker [''/tmp/testroot''] ''foo'')))
        = concat (map (matching_paths ''foo'') (all_entries (walk_fs test_fs) [''/tmp/testroot'']))"
    and d: "distinct (found_paths (log (run (walk_fs test_fs) never_set
             (SearchWorker [''/tmp/testroot''] ''foo''))))"
    and s: "set (found_paths (log (run (walk_fs test_fs) never_set
             (SearchWorker [''/tmp/testroot''] ''foo''))))
           = (\<Union>r \<in> set [''/tmp/testroot'']. set (fs_matches test_fs ''foo'' r))"
    by blast+
  from s have s': "set (found_paths (log (run (walk_fs test_fs) never_set
         (SearchWorker [''/tmp/testroot''] ''foo''))))
       = set (fs_matches test_fs ''foo'' ''/tmp/testroot'')"
    by (simp only: list.set UN_insert UN_empty Un_empty_right)
  from e v have e': "concat (map (matching_paths ''foo'') (all_entries (walk_fs test_fs) [''/tmp/testroot'']))
     = [''/tmp/testroot/Foo'', ''/tmp/testroot/baz/FooBar.log'']"
    by simp
  from v e' d s' f show ?thesis by blast
qed

text \<open>
  Claim C1 as stated fails. With the default root \<open>/\<close> and the external mount
  \<open>/media/usb1\<close> as second root, which lies below the first, the file
  \<open>/media/usb1/foo.txt\<close> is emitted twice. And a directory whose name contains the
  keyword but which cannot be read is not emitted.
\<close>

theorem run_found_twice:
  "count_list (found_paths (log (run (walk_fs usb_fs) never_set
       (SearchWorker [''/'', ''/media/usb1''] ''foo'')))) ''/media/usb1/foo.txt'' = 2
   \<and> found_paths (log (run (walk_fs locked_fs) never_set (SearchWorker [''/srv''] ''foo''))) = []"
  by code_simp

section \<open>Properties of the main window\<close>

lemma strip_blank:
  assumes "\<forall>c \<in> set s. is_space c"
  shows "strip s = []"
proof -
  have d: "dropWhile is_space s = []"
    using assms by (induction s) simp_all
  show ?thesis unfolding strip_def d by simp
qed

text \<open>
  Claim C5. When the keyword field is empty or holds only whitespace, submitting it (by
  \<open>start_search\<close> itself, by Return in the keyword field, or by a click on the enabled
  search button) changes nothing but the status line, which shows the request for a
  keyword: no worker is created or started and the result list is as before.
\<close>

theorem start_search_blank:
  assumes "\<forall>c \<in> set (search_input self). is_space c"
  shows "start_search pm self = self\<lparr>status_label := Entrer_un_mot_cle\<rparr>
    \<and> step pm Press_return self = self\<lparr>status_label := Entrer_un_mot_cle\<rparr>
    \<and> (search_button_enabled self \<longrightarrow>
          step pm Click_search self = self\<lparr>status_label := Entrer_un_mot_cle\<rparr>)
    \<and> workers (start_search pm self) = workers self
    \<and> running (start_search pm self) = running self
    \<and> result_list (start_search pm self) = result_list self"
  using strip_blank [OF assms] by (simp add: start_search_def)

theorem start_search_blank_witness:
  "start_search (Lines []) (MainWindow\<lparr>search_input := ''   '', result_list := [''/etc/fstab'']\<rparr>)
       = MainWindow\<lparr>search_input := ''   '', result_list := [''/etc/fstab''],
                     status_label := Entrer_un_mot_cle\<rparr>
   \<and> result_list (start_search (Lines [])
         (MainWindow\<lparr>search_input := ''   '', result_list := [''/etc/fstab'']\<rparr>))
       = [''/etc/fstab'']"
proof -
  have h: "\<forall>c \<in> set (search_input (MainWindow\<lparr>search_input := ''   '', result_list := [''/etc/fstab'']\<rparr>)).
             is_space c"
    by (simp add: is_space_def)
  show ?thesis
    using start_search_blank [OF h, of "Lines []"] by simp
qed

text \<open>
  Claim C4 asks that at most one worker is active in every reachable state of the window,
  whether a search is triggered by the button or by Return in the keyword field. The
  window does not have this property. After a keyword is typed and Return is pressed
  twice, the second time while the first worker is running, two workers are running.
  A click on the search button in the same state starts nothing, because the button is
  disabled during a search. The second Return also clears the shared flag that a click on
  the stop button had set for the first worker, and the matches of both workers arrive in
  the same result list.
\<close>

theorem return_pressed_while_running:
  "running (steps pm [Edit_keyword ''foo'', Press_return, Press_return] MainWindow) = [0, 1]
   \<and> running (steps pm [Edit_keyword ''foo'', Press_return, Click_search] MainWindow) = [0]
   \<and> stop_event (steps pm [Edit_keyword ''foo'', Press_return, Click_stop] MainWindow)
   \<and> \<not> stop_event (steps pm [Edit_keyword ''foo'', Press_return, Click_stop, Press_return] MainWindow)
   \<and> result_list (steps pm [Edit_keyword ''foo'', Press_return, Press_return,
          Worker_found 0 ''/a/foo'', Worker_found 1 ''/b/foo'', Worker_found 0 ''/c/foo''] MainWindow)
       = [''/a/foo'', ''/b/foo'', ''/c/foo'']"
  by (simp add: MainWindow_def start_search_def stop_search_def on_found_def strip_def
        is_space_def Let_def)

section \<open>Properties of the terminal launcher\<close>

text \<open>
  Claim C6 asks that the directory is quoted or escaped when it is put into a shell
  command, so that the shell started in the terminal changes to exactly that directory.
  The launcher does not do this: the directory is pasted unchanged between fixed pieces
  of text. Where only \<open>xterm\<close> is installed and the directory is \<open>/tmp/my folder\<close>, the
  command given after \<open>-e\<close> is \<open>bash -lc "cd "/tmp/my folder"; exec bash"\<close>: the quote
  before the directory closes the quote opened before \<open>cd\<close>, the space of the directory is
  outside quotes and ends the word \<open>cd /tmp/my\<close>. With \<open>gnome-terminal\<close> and the
  directory \<open>/tmp/a"b\<close> the script of \<open>bash -c\<close> is \<open>cd "/tmp/a"b"; exec bash\<close>, whose
  last quote is never closed.
\<close>

theorem open_terminal_at_unquoted:
  "open_terminal_at (only_installed ''xterm'') popen_succeeds ''/tmp/my folder''
     = Spawned [''xterm'', ''-e'', ''bash -lc \"cd \"/tmp/my folder\"; exec bash\"'']
   \<and> open_terminal_at (only_installed ''gnome-terminal'') popen_succeeds ''/tmp/a\"b''
     = Spawned [''gnome-terminal'', ''--'', ''bash'', ''-c'', ''cd \"/tmp/a\"b\"; exec bash'']"
  by (simp add: open_terminal_at_def candidates_def only_installed_def popen_succeeds_def
        terminal_argv_def)

end
